theory Spec2Isabelle
  imports Complex_Main "HOL-Library.Multiset"
begin

section \<open>CENSO utilities: shared Python vocabulary\<close>

text \<open>
  The development embeds functions of \<^verbatim>\<open>censo_qm/utilities.py\<close>.  Python floats are
  read as \<^typ>\<open>real\<close> numbers; the Boltzmann weights are embedded a second time with the
  range of doubles, where results overflow to an infinity and underflow to zero.  Python
  exceptions are values of \<open>py_error\<close>; what a function prints is returned as a list of
  \<open>message\<close> values, one per \<^verbatim>\<open>print\<close> call.
\<close>

datatype py_error =
    IndexError
  | ValueError
  | NameError
  | AttributeError
  | TypeError
  | ZeroDivisionError
  | OverflowError
  | OSError

datatype message =
    Error_too_many_failed
  | Error_percent_failed real
  | Warning_percent_failed real
  | Error_pearson_length
  | Warning_exception py_error
  | Error_exception py_error
  | Error_no_tags_file
  | Removing_conformer int
  | Error_boltzmann
  | Temperature_reset real
  | Checking_with_cregen
  | Error_folder int
  | Removed_io_failed int
  | Was_removed_io_failed int
  | Constructed_folders
  | Printed_exception py_error
  | Backing_up string string

section \<open>Python strings\<close>

text \<open>
  Strings are lists of characters with codes below 256 (the files are read with a
  one-byte encoding).  \<^verbatim>\<open>str.split()\<close> with no argument splits at runs of whitespace and
  yields no empty token.
\<close>

definition is_space :: "char \<Rightarrow> bool" where
  "is_space c = (c \<in> set [CHR 0x09, CHR 0x0A, CHR 0x0B, CHR 0x0C, CHR 0x0D, CHR 0x1C, CHR 0x1D,
                           CHR 0x1E, CHR 0x1F, CHR 0x20, CHR 0x85, CHR 0xA0])"

fun split_from :: "string \<Rightarrow> string \<Rightarrow> string list" where
  "split_from [] cur = (if cur = [] then [] else [cur])"
| "split_from (c # cs) cur =
     (if is_space c then (if cur = [] then split_from cs [] else cur # split_from cs [])
      else split_from cs (cur @ [c]))"

definition py_split :: "string \<Rightarrow> string list" where
  "py_split s = split_from s []"

text \<open>\<^verbatim>\<open>str(i)\<close> for an integer: decimal digits, a minus sign for a negative number.\<close>

definition digit_char :: "nat \<Rightarrow> char" where
  "digit_char d = ''0123456789'' ! d"

function str_nat :: "nat \<Rightarrow> string" where
  "str_nat n = (if n < 10 then [digit_char n] else str_nat (n div 10) @ [digit_char (n mod 10)])"
  by pat_completeness auto
termination
  by (relation "measure (\<lambda>n. n)") auto

declare str_nat.simps [simp del]

definition str_int :: "int \<Rightarrow> string" where
  "str_int i = (if i < 0 then CHR ''-'' # str_nat (nat (- i)) else str_nat (nat i))"

text \<open>\<^verbatim>\<open>xs.index(x)\<close> (the first position holding \<open>x\<close>, \<^verbatim>\<open>ValueError\<close> when there is none) and \<^verbatim>\<open>xs.pop(i)\<close>.\<close>

fun index_of :: "'a list \<Rightarrow> 'a \<Rightarrow> nat option" where
  "index_of [] x = None"
| "index_of (y # ys) x = (if y = x then Some 0 else map_option Suc (index_of ys x))"

definition pop_at :: "nat \<Rightarrow> 'a list \<Rightarrow> 'a list" where
  "pop_at i xs = take i xs @ drop (Suc i) xs"

section \<open>PerConformerStore: \<^verbatim>\<open>splitting\<close> and \<^verbatim>\<open>move_recursively\<close>\<close>

text \<open>\<^verbatim>\<open>sub in s\<close> on strings: \<open>sub\<close> occurs in \<open>s\<close> as a contiguous piece.\<close>

fun contains :: "string \<Rightarrow> string \<Rightarrow> bool" where
  "contains [] sub = (sub = [])"
| "contains (c # cs) sub = (take (length sub) (c # cs) = sub \<or> contains cs sub)"

text \<open>
  \<^verbatim>\<open>s.rsplit(".", 1)\<close> splits at the last dot; without a dot the result has one element
  and its index 1 raises \<^verbatim>\<open>IndexError\<close>.
\<close>

fun rsplit_dot :: "string \<Rightarrow> (string \<times> string) option" where
  "rsplit_dot [] = None"
| "rsplit_dot (c # cs) =
     (case rsplit_dot cs of
        Some (head, tail) \<Rightarrow> Some (c # head, tail)
      | None \<Rightarrow> if c = CHR ''.'' then Some ([], cs) else None)"

text \<open>
  \<^verbatim>\<open>int(s)\<close> on a string: surrounding whitespace is stripped, one sign is allowed, and
  the rest is decimal digits with single underscores between digits; anything else is a
  \<^verbatim>\<open>ValueError\<close> (\<open>None\<close>).  The whitespace \<^verbatim>\<open>int\<close> strips is narrower than that of
  \<^verbatim>\<open>str.split\<close>: the six ASCII characters of C's \<^verbatim>\<open>isspace\<close>, and the non-ASCII spaces
  (which \<^verbatim>\<open>int\<close> first turns into blanks); the separators \<open>0x1C\<close> to \<open>0x1F\<close> are not
  stripped, so \<^verbatim>\<open>int("\x1f3")\<close> is a \<^verbatim>\<open>ValueError\<close>.
\<close>

definition is_int_space :: "char \<Rightarrow> bool" where
  "is_int_space c = (c \<in> set [CHR 0x09, CHR 0x0A, CHR 0x0B, CHR 0x0C, CHR 0x0D, CHR 0x20,
                               CHR 0x85, CHR 0xA0])"

definition is_digit :: "char \<Rightarrow> bool" where
  "is_digit c = (c \<in> set ''0123456789'')"

definition digit_value :: "char \<Rightarrow> nat" where
  "digit_value c = (case index_of ''0123456789'' c of Some d \<Rightarrow> d | None \<Rightarrow> 0)"

fun digits_ok :: "string \<Rightarrow> bool" where
  "digits_ok [] = False"
| "digits_ok [c] = is_digit c"
| "digits_ok (c # d # cs) =
     (is_digit c \<and> (if d = CHR ''_'' then digits_ok cs else digits_ok (d # cs)))"

definition digits_value :: "string \<Rightarrow> nat" where
  "digits_value s = foldl (\<lambda>v c. if c = CHR ''_'' then v else 10 * v + digit_value c) 0 s"

definition int_strip :: "string \<Rightarrow> string" where
  "int_strip s = rev (dropWhile is_int_space (rev (dropWhile is_int_space s)))"

definition py_int :: "string \<Rightarrow> int option" where
  "py_int s =
     (let t = int_strip s;
          (negative, body) =
             (case t of
                [] \<Rightarrow> (False, t)
              | c # r \<Rightarrow> if c = CHR ''-'' then (True, r)
                         else if c = CHR ''+'' then (False, r) else (False, t))
      in if digits_ok body
         then Some (if negative then - int (digits_value body) else int (digits_value body))
         else None)"

text \<open>
  \<^verbatim>\<open>splitting\<close>: the integer after the last dot, 0 when it is no integer
  (\<^verbatim>\<open>ValueError\<close> caught); a name without a dot raises \<^verbatim>\<open>IndexError\<close>, which is not caught.
\<close>

definition splitting :: "string \<Rightarrow> py_error + int" where
  "splitting item =
     (case rsplit_dot item of
        None \<Rightarrow> Inl IndexError
      | Some (head, tail) \<Rightarrow> (case py_int tail of None \<Rightarrow> Inr 0 | Some k \<Rightarrow> Inr k))"

text \<open>
  \<^verbatim>\<open>newfiles.sort(key=splitting, reverse=True)\<close>: the keys are computed first, so a key
  that raises leaves before anything is reordered; the reversed sort is stable, that is
  the stable ascending sort of the reversed list, reversed.
\<close>

definition sort_reversed_by_splitting :: "string list \<Rightarrow> py_error + string list" where
  "sort_reversed_by_splitting newfiles =
     (if list_ex (\<lambda>item. rsplit_dot item = None) newfiles then Inl IndexError
      else Inr (rev (sort_key (\<lambda>item. case splitting item of Inl e \<Rightarrow> 0 | Inr k \<Rightarrow> k)
                      (rev newfiles))))"

text \<open>
  The directory holds regular files only: a map from names to contents.  \<^verbatim>\<open>shutil.move\<close>
  renames; an existing target file is replaced, a missing source raises.
\<close>

type_synonym 'c directory = "string \<rightharpoonup> 'c"
type_synonym rename = "string \<times> string"

definition shutil_move :: "'c directory \<Rightarrow> string \<Rightarrow> string \<Rightarrow> py_error + 'c directory" where
  "shutil_move dir src dst =
     (case dir src of
        None \<Rightarrow> Inl OSError
      | Some content \<Rightarrow> Inr ((dir(src := None))(dst \<mapsto> content)))"

text \<open>The loop \<^verbatim>\<open>for item in newfiles\<close>, with the renames it performs in order.\<close>

fun backup_loop ::
  "string list \<Rightarrow> 'c directory \<times> rename list \<Rightarrow> py_error + 'c directory \<times> rename list" where
  "backup_loop [] s = Inr s"
| "backup_loop (item # items) (dir, renames) =
     (case rsplit_dot item of
        None \<Rightarrow> Inl IndexError
      | Some (data0, data1) \<Rightarrow>
          (case py_int data1 of
             None \<Rightarrow> backup_loop items (dir, renames)
           | Some k \<Rightarrow>
               let newfilename = data0 @ ''.'' @ str_int (k + 1) in
               (case shutil_move dir item newfilename of
                  Inl e \<Rightarrow> Inl e
                | Inr dir' \<Rightarrow> backup_loop items (dir', renames @ [(item, newfilename)]))))"

text \<open>
  \<open>listing\<close> is what \<^verbatim>\<open>os.listdir\<close> returns, in its order, restricted to regular files.
  The result is the directory afterwards, the renames in the order performed, and the
  printed lines.
\<close>

definition move_recursively ::
  "string list \<Rightarrow> 'c directory \<Rightarrow> string
     \<Rightarrow> py_error + 'c directory \<times> rename list \<times> message list" where
  "move_recursively listing dir filename =
     (let files = listing;
          newfiles = filter (\<lambda>item. contains item (filename @ ''.'')) files
      in case sort_reversed_by_splitting newfiles of
           Inl e \<Rightarrow> Inl e
         | Inr sorted_files \<Rightarrow>
             (case backup_loop sorted_files (dir, []) of
                Inl e \<Rightarrow> Inl e
              | Inr (dir1, renames1) \<Rightarrow>
                  if filename \<in> set files then
                    (case shutil_move dir1 filename (filename @ ''.1'') of
                       Inl e \<Rightarrow> Inl e
                     | Inr dir2 \<Rightarrow>
                         Inr (dir2, renames1 @ [(filename, filename @ ''.1'')],
                              [Backing_up filename (filename @ ''.1'')]))
                  else Inr (dir1, renames1, [])))"

text \<open>
  A rename collides when its target exists at the moment it is performed; replaying the
  renames on the directory checks that none does.
\<close>

fun collision_free :: "'c directory \<Rightarrow> rename list \<Rightarrow> bool" where
  "collision_free dir [] = True"
| "collision_free dir ((src, dst) # renames) =
     (dir dst = None \<and> collision_free ((dir(src := None))(dst := dir src)) renames)"

text \<open>The integer suffix of a name, if it has one.\<close>

definition numeric_suffix :: "string \<Rightarrow> int option" where
  "numeric_suffix item =
     (case rsplit_dot item of None \<Rightarrow> None | Some (head, tail) \<Rightarrow> py_int tail)"

text \<open>Renames whose source and target both carry an integer suffix.\<close>

definition numeric_renames :: "rename list \<Rightarrow> bool" where
  "numeric_renames renames =
     list_all (\<lambda>(src, dst). numeric_suffix src \<noteq> None \<and> numeric_suffix dst \<noteq> None) renames"

section \<open>BoltzmannWeighting: \<^verbatim>\<open>calc_boltzmannweights\<close>\<close>

text \<open>
  The function reads conformer attributes by name (\<^verbatim>\<open>getattr(conf, property, None)\<close>,
  \<^verbatim>\<open>getattr(item, "gi", 1.0)\<close>, \<^verbatim>\<open>item.free_energy\<close>) and writes \<^verbatim>\<open>bm_weight\<close>.  A
  conformer is therefore its attribute dictionary: a map from attribute names to
  numbers, where a missing entry stands for an attribute that is absent or \<^verbatim>\<open>None\<close>.
  The constants \<^verbatim>\<open>AU2J\<close> and \<^verbatim>\<open>KB\<close> are imported from the configuration module and are
  parameters here.

  This first embedding computes with real numbers: it is what the code computes while
  every intermediate result stays inside the range of doubles, up to rounding, and it is
  the one compared with the formula of the specification.  The embedding with the range
  of doubles follows in the next section.
\<close>

type_synonym conformer_attrs = "string \<rightharpoonup> real"

text \<open>What \<^verbatim>\<open>float(T)\<close> can do with the temperature argument.\<close>

datatype temperature_arg =
    T_number real        \<comment> \<open>converts to a float\<close>
  | T_unparsable         \<comment> \<open>a string that is no number: \<^verbatim>\<open>ValueError\<close>, caught\<close>
  | T_wrong_type         \<comment> \<open>for instance \<^verbatim>\<open>None\<close>: \<^verbatim>\<open>TypeError\<close>, not caught\<close>

definition getattr_default :: "conformer_attrs \<Rightarrow> string \<Rightarrow> real \<Rightarrow> real" where
  "getattr_default conf name d = (case conf name of None \<Rightarrow> d | Some v \<Rightarrow> v)"

text \<open>
  The summand \<^verbatim>\<open>getattr(item, "gi", 1.0) * math.exp(-((item.free_energy - minfree) * AU2J) / (KB * T))\<close>,
  with its failures in evaluation order: \<^verbatim>\<open>item.free_energy\<close> missing, \<^verbatim>\<open>minfree\<close>
  never bound, division by \<^verbatim>\<open>KB * T\<close>.
\<close>

definition boltzmann_term ::
  "real \<Rightarrow> real \<Rightarrow> real \<Rightarrow> real option \<Rightarrow> conformer_attrs \<Rightarrow> py_error + real" where
  "boltzmann_term AU2J KB T minfree item =
     (case item ''free_energy'' of
        None \<Rightarrow> Inl AttributeError
      | Some free_energy \<Rightarrow>
          (case minfree of
             None \<Rightarrow> Inl NameError
           | Some m \<Rightarrow>
               if KB * T = 0 then Inl ZeroDivisionError
               else Inr (getattr_default item ''gi'' 1.0
                          * exp (- ((free_energy - m) * AU2J) / (KB * T)))))"

text \<open>First loop: \<^verbatim>\<open>for item in confs: bsum += ...\<close>.\<close>

fun bsum_loop ::
  "real \<Rightarrow> real \<Rightarrow> real \<Rightarrow> real option \<Rightarrow> conformer_attrs list \<Rightarrow> real \<Rightarrow> py_error + real" where
  "bsum_loop AU2J KB T minfree [] bsum = Inr bsum"
| "bsum_loop AU2J KB T minfree (item # confs) bsum =
     (case boltzmann_term AU2J KB T minfree item of
        Inl e \<Rightarrow> Inl e
      | Inr t \<Rightarrow> bsum_loop AU2J KB T minfree confs (bsum + t))"

text \<open>Second loop: \<^verbatim>\<open>for item in confs: item.bm_weight = ... / bsum\<close>.\<close>

fun weight_loop ::
  "real \<Rightarrow> real \<Rightarrow> real \<Rightarrow> real option \<Rightarrow> real \<Rightarrow> conformer_attrs list
     \<Rightarrow> py_error + conformer_attrs list" where
  "weight_loop AU2J KB T minfree bsum [] = Inr []"
| "weight_loop AU2J KB T minfree bsum (item # confs) =
     (case boltzmann_term AU2J KB T minfree item of
        Inl e \<Rightarrow> Inl e
      | Inr t \<Rightarrow>
          if bsum = 0 then Inl ZeroDivisionError
          else (case weight_loop AU2J KB T minfree bsum confs of
                  Inl e \<Rightarrow> Inl e
                | Inr confs' \<Rightarrow> Inr (item(''bm_weight'' \<mapsto> t / bsum) # confs')))"

definition calc_boltzmannweights ::
  "real \<Rightarrow> real \<Rightarrow> conformer_attrs list \<Rightarrow> string \<Rightarrow> temperature_arg
     \<Rightarrow> message list \<times> (py_error + conformer_attrs list)" where
  "calc_boltzmannweights AU2J KB confs property T =
     (if length confs = 1 then ([], Inr [(confs ! 0)(''bm_weight'' \<mapsto> 1.0)])
      else if T = T_wrong_type then ([], Inl TypeError)
      else
        let (T1, out1) = (case T of T_number t \<Rightarrow> (t, [])
                           | _ \<Rightarrow> (298.15, [Temperature_reset 298.15]));
            T2 = (if T1 = 0 then T1 + 0.00001 else T1);
            values = map the (filter (\<lambda>v. v \<noteq> None) (map (\<lambda>conf. conf property) confs));
            (minfree, out2) = (if values = [] then (None, out1 @ [Error_boltzmann])
                               else (Some (min_list values), out1))
        in case bsum_loop AU2J KB T2 minfree confs 0.0 of
             Inl e \<Rightarrow> (out2, Inl e)
           | Inr bsum \<Rightarrow> (out2, weight_loop AU2J KB T2 minfree bsum confs))"

text \<open>
  The formula of the specification, written from its words: the Boltzmann factor of
  conformer \<open>i\<close> uses the value \<open>E_i\<close> of the \<^emph>\<open>chosen property\<close> on that conformer and the
  minimum \<open>E_min\<close> of the chosen property over the conformers that have it set.
\<close>

definition spec_E_min :: "conformer_attrs list \<Rightarrow> string \<Rightarrow> real" where
  "spec_E_min confs property =
     min_list (map the (filter (\<lambda>v. v \<noteq> None) (map (\<lambda>conf. conf property) confs)))"

definition spec_factor :: "real \<Rightarrow> real \<Rightarrow> real \<Rightarrow> conformer_attrs list \<Rightarrow> string \<Rightarrow> conformer_attrs \<Rightarrow> real" where
  "spec_factor AU2J KB T confs property conf =
     getattr_default conf ''gi'' 1.0
       * exp (- (the (conf property) - spec_E_min confs property) * AU2J / (KB * T))"

definition spec_weight :: "real \<Rightarrow> real \<Rightarrow> real \<Rightarrow> conformer_attrs list \<Rightarrow> string \<Rightarrow> nat \<Rightarrow> real" where
  "spec_weight AU2J KB T confs property i =
     spec_factor AU2J KB T confs property (confs ! i)
       / sum_list (map (spec_factor AU2J KB T confs property) confs)"

text \<open>The weights a returned conformer list carries.\<close>

definition bm_weights :: "conformer_attrs list \<Rightarrow> real list" where
  "bm_weights confs = map (\<lambda>conf. the (conf ''bm_weight'')) confs"

text \<open>The summand of a conformer once it is known to evaluate (0 stands in where it raises).\<close>

definition term_of :: "real \<Rightarrow> real \<Rightarrow> real \<Rightarrow> real option \<Rightarrow> conformer_attrs \<Rightarrow> real" where
  "term_of AU2J KB T minfree item =
     (case boltzmann_term AU2J KB T minfree item of Inl e \<Rightarrow> 0 | Inr t \<Rightarrow> t)"

section \<open>BoltzmannWeighting in the range of doubles\<close>

text \<open>
  Python's floats are IEEE doubles.  A result whose magnitude reaches \<open>2^1024 - 2^970\<close>
  rounds to an infinity, a result of magnitude at most \<open>2^-1075\<close> rounds to zero, and
  infinities and NaN propagate through later operations.  This second embedding of
  \<^verbatim>\<open>calc_boltzmannweights\<close> keeps all of that and leaves out only the rounding of results
  inside the range.  The attribute values and constants the function reads are finite.
\<close>

datatype pyfloat = Fin real | PInf | NInf | NaN

definition double_overflow :: real where
  "double_overflow = 2 ^ 1024 - 2 ^ 970"

definition double_underflow :: real where
  "double_underflow = 1 / 2 ^ 1075"

definition fl :: "real \<Rightarrow> pyfloat" where
  "fl x = (if double_overflow \<le> x then PInf
           else if x \<le> - double_overflow then NInf
           else if \<bar>x\<bar> \<le> double_underflow then Fin 0
           else Fin x)"

text \<open>The infinity of the sign of a finite factor; infinity times zero is NaN.\<close>

definition inf_of_sign :: "real \<Rightarrow> pyfloat" where
  "inf_of_sign x = (if 0 < x then PInf else if x < 0 then NInf else NaN)"

fun fneg :: "pyfloat \<Rightarrow> pyfloat" where
  "fneg (Fin x) = Fin (- x)"
| "fneg PInf = NInf"
| "fneg NInf = PInf"
| "fneg NaN = NaN"

fun fadd :: "pyfloat \<Rightarrow> pyfloat \<Rightarrow> pyfloat" where
  "fadd NaN b = NaN"
| "fadd a NaN = NaN"
| "fadd (Fin x) (Fin y) = fl (x + y)"
| "fadd PInf NInf = NaN"
| "fadd NInf PInf = NaN"
| "fadd PInf b = PInf"
| "fadd a PInf = PInf"
| "fadd NInf b = NInf"
| "fadd a NInf = NInf"

fun fmul :: "pyfloat \<Rightarrow> pyfloat \<Rightarrow> pyfloat" where
  "fmul NaN b = NaN"
| "fmul a NaN = NaN"
| "fmul (Fin x) (Fin y) = fl (x * y)"
| "fmul PInf (Fin y) = inf_of_sign y"
| "fmul NInf (Fin y) = inf_of_sign (- y)"
| "fmul (Fin x) PInf = inf_of_sign x"
| "fmul (Fin x) NInf = inf_of_sign (- x)"
| "fmul PInf PInf = PInf"
| "fmul NInf NInf = PInf"
| "fmul PInf NInf = NInf"
| "fmul NInf PInf = NInf"

text \<open>Python's \<^verbatim>\<open>a / b\<close> raises \<^verbatim>\<open>ZeroDivisionError\<close> for a zero divisor, whatever \<open>a\<close> is.\<close>

fun fquot :: "pyfloat \<Rightarrow> pyfloat \<Rightarrow> pyfloat" where
  "fquot NaN b = NaN"
| "fquot a NaN = NaN"
| "fquot (Fin x) (Fin y) = fl (x / y)"
| "fquot (Fin x) b = Fin 0"
| "fquot PInf (Fin y) = inf_of_sign y"
| "fquot NInf (Fin y) = inf_of_sign (- y)"
| "fquot a b = NaN"

definition fdiv :: "pyfloat \<Rightarrow> pyfloat \<Rightarrow> py_error + pyfloat" where
  "fdiv a b = (if b = Fin 0 then Inl ZeroDivisionError else Inr (fquot a b))"

text \<open>
  \<^verbatim>\<open>math.exp\<close> raises \<^verbatim>\<open>OverflowError\<close> when the result of a finite argument is too
  large; a result too small is zero without an error.
\<close>

fun fexp :: "pyfloat \<Rightarrow> py_error + pyfloat" where
  "fexp (Fin x) = (if double_overflow \<le> exp x then Inl OverflowError else Inr (fl (exp x)))"
| "fexp PInf = Inr PInf"
| "fexp NInf = Inr (Fin 0)"
| "fexp NaN = Inr NaN"

text \<open>
  The summand
  \<^verbatim>\<open>getattr(item, "gi", 1.0) * math.exp(-((item.free_energy - minfree) * AU2J) / (KB * T))\<close>
  operation by operation, in evaluation order.
\<close>

definition boltzmann_term_double ::
  "real \<Rightarrow> real \<Rightarrow> real \<Rightarrow> real option \<Rightarrow> conformer_attrs \<Rightarrow> py_error + pyfloat" where
  "boltzmann_term_double AU2J KB T minfree item =
     (case item ''free_energy'' of
        None \<Rightarrow> Inl AttributeError
      | Some free_energy \<Rightarrow>
          (case minfree of
             None \<Rightarrow> Inl NameError
           | Some m \<Rightarrow>
               (case fdiv (fneg (fmul (fl (free_energy - m)) (Fin AU2J))) (fl (KB * T)) of
                  Inl e \<Rightarrow> Inl e
                | Inr q \<Rightarrow>
                    (case fexp q of
                       Inl e \<Rightarrow> Inl e
                     | Inr x \<Rightarrow> Inr (fmul (Fin (getattr_default item ''gi'' 1.0)) x)))))"

fun bsum_loop_double ::
  "real \<Rightarrow> real \<Rightarrow> real \<Rightarrow> real option \<Rightarrow> conformer_attrs list \<Rightarrow> pyfloat
     \<Rightarrow> py_error + pyfloat" where
  "bsum_loop_double AU2J KB T minfree [] bsum = Inr bsum"
| "bsum_loop_double AU2J KB T minfree (item # confs) bsum =
     (case boltzmann_term_double AU2J KB T minfree item of
        Inl e \<Rightarrow> Inl e
      | Inr t \<Rightarrow> bsum_loop_double AU2J KB T minfree confs (fadd bsum t))"

text \<open>The second loop; each conformer is returned with the \<^verbatim>\<open>bm_weight\<close> assigned to it.\<close>

fun weight_loop_double ::
  "real \<Rightarrow> real \<Rightarrow> real \<Rightarrow> real option \<Rightarrow> pyfloat \<Rightarrow> conformer_attrs list
     \<Rightarrow> py_error + (conformer_attrs \<times> pyfloat) list" where
  "weight_loop_double AU2J KB T minfree bsum [] = Inr []"
| "weight_loop_double AU2J KB T minfree bsum (item # confs) =
     (case boltzmann_term_double AU2J KB T minfree item of
        Inl e \<Rightarrow> Inl e
      | Inr t \<Rightarrow>
          (case fdiv t bsum of
             Inl e \<Rightarrow> Inl e
           | Inr w \<Rightarrow>
               (case weight_loop_double AU2J KB T minfree bsum confs of
                  Inl e \<Rightarrow> Inl e
                | Inr rest \<Rightarrow> Inr ((item, w) # rest))))"

text \<open>
  The temperature after \<^verbatim>\<open>float(T)\<close>, its fallback and the nudge away from zero, and
  \<^verbatim>\<open>minfree\<close> (unbound when no conformer has the property).
\<close>

definition effective_temperature :: "temperature_arg \<Rightarrow> real" where
  "effective_temperature T =
     (let T1 = (case T of T_number t \<Rightarrow> t | _ \<Rightarrow> 298.15)
      in if T1 = 0 then T1 + 0.00001 else T1)"

definition minfree_of :: "conformer_attrs list \<Rightarrow> string \<Rightarrow> real option" where
  "minfree_of confs property =
     (let values = map the (filter (\<lambda>v. v \<noteq> None) (map (\<lambda>conf. conf property) confs))
      in if values = [] then None else Some (min_list values))"

text \<open>The value of \<^verbatim>\<open>bsum\<close> after the first loop.\<close>

definition boltzmann_sum_double ::
  "real \<Rightarrow> real \<Rightarrow> conformer_attrs list \<Rightarrow> string \<Rightarrow> temperature_arg \<Rightarrow> py_error + pyfloat" where
  "boltzmann_sum_double AU2J KB confs property T =
     bsum_loop_double AU2J KB (effective_temperature T) (minfree_of confs property) confs (Fin 0.0)"

definition calc_boltzmannweights_double ::
  "real \<Rightarrow> real \<Rightarrow> conformer_attrs list \<Rightarrow> string \<Rightarrow> temperature_arg
     \<Rightarrow> message list \<times> (py_error + (conformer_attrs \<times> pyfloat) list)" where
  "calc_boltzmannweights_double AU2J KB confs property T =
     (if length confs = 1 then ([], Inr [(confs ! 0, Fin 1.0)])
      else if T = T_wrong_type then ([], Inl TypeError)
      else
        let out1 = (case T of T_number t \<Rightarrow> [] | _ \<Rightarrow> [Temperature_reset 298.15]);
            out2 = (if minfree_of confs property = None then out1 @ [Error_boltzmann] else out1)
        in case boltzmann_sum_double AU2J KB confs property T of
             Inl e \<Rightarrow> (out2, Inl e)
           | Inr bsum \<Rightarrow>
               (out2, weight_loop_double AU2J KB (effective_temperature T)
                        (minfree_of confs property) bsum confs))"






text \<open>
  Values for evaluating the functions: the two constants of the configuration module
  (the hartree in joule and the Boltzmann constant in joule per kelvin), and a degeneracy
  factor near the top of the range of doubles.
\<close>

definition example_AU2J :: real where
  "example_AU2J = 43597482 / 10 ^ 25"

definition example_KB :: real where
  "example_KB = 13806485279 / 10 ^ 33"


section \<open>RankCorrelation: \<^verbatim>\<open>rank_simple\<close> and \<^verbatim>\<open>rankdata\<close>\<close>

text \<open>
  \<^verbatim>\<open>sorted(range(len(vector)), key=vector.__getitem__)\<close>: Python's sort is stable, as
  \<^const>\<open>sort_key\<close> is.  The elements are of any linearly ordered type (numbers without
  NaN).
\<close>

definition rank_simple :: "'a::linorder list \<Rightarrow> nat list" where
  "rank_simple vector = sort_key (\<lambda>i. vector ! i) [0..<length vector]"

text \<open>The inner loop \<^verbatim>\<open>for j in range(i - dupcount + 1, i + 1): newarray[ivec[j]] = averank\<close>.\<close>

definition assign_averank :: "nat list \<Rightarrow> real \<Rightarrow> nat list \<Rightarrow> real list \<Rightarrow> real list" where
  "assign_averank ivec averank js newarray = fold (\<lambda>j arr. arr[ivec ! j := averank]) js newarray"

text \<open>
  One iteration of \<^verbatim>\<open>for i in range(n)\<close> on the loop state
  \<open>(sumranks, dupcount, newarray)\<close>.  Since \<open>dupcount \<le> i + 1\<close> throughout, Python's
  \<open>i - dupcount + 1\<close> is the natural number \<open>i + 1 - dupcount\<close>.
\<close>

definition rank_step ::
  "'a list \<Rightarrow> nat list \<Rightarrow> nat \<Rightarrow> nat \<Rightarrow> nat \<times> nat \<times> real list \<Rightarrow> nat \<times> nat \<times> real list" where
  "rank_step svec ivec n i st =
     (case st of (sumranks0, dupcount0, newarray) \<Rightarrow>
        let sumranks = sumranks0 + i; dupcount = dupcount0 + 1 in
        if i = n - 1 \<or> svec ! i \<noteq> svec ! (i + 1) then
          let averank = real sumranks / real dupcount + 1 in
          (0, 0, assign_averank ivec averank [i + 1 - dupcount ..< i + 1] newarray)
        else (sumranks, dupcount, newarray))"

definition rankdata :: "'a::linorder list \<Rightarrow> real list" where
  "rankdata a =
     (let n = length a;
          ivec = rank_simple a;
          svec = map (\<lambda>rank. a ! rank) ivec
      in snd (snd (fold (rank_step svec ivec n) [0..<n] (0, 0, replicate n 0))))"

text \<open>
  The average-rank convention in the words of the specification: the 0-based positions
  that the tie group of a value occupies in the ascending sort, and the average of the
  corresponding 1-based positions.
\<close>

definition tie_positions :: "'a::linorder list \<Rightarrow> 'a \<Rightarrow> nat list" where
  "tie_positions a v = filter (\<lambda>p. sort a ! p = v) [0..<length a]"

definition average_rank :: "'a::linorder list \<Rightarrow> 'a \<Rightarrow> real" where
  "average_rank a v =
     sum_list (map (\<lambda>p. real (p + 1)) (tie_positions a v)) / real (length (tie_positions a v))"

text \<open>The loop invariant of \<^const>\<open>rankdata\<close> after \<open>i\<close> iterations, over the sorted vector.\<close>

definition group_average :: "'a list \<Rightarrow> 'a \<Rightarrow> real" where
  "group_average svec v =
     (let ps = filter (\<lambda>p. svec ! p = v) [0..<length svec]
      in sum_list (map (\<lambda>p. real (p + 1)) ps) / real (length ps))"

definition rank_inv ::
  "'a::linorder list \<Rightarrow> nat list \<Rightarrow> nat \<Rightarrow> nat \<times> nat \<times> real list \<Rightarrow> bool" where
  "rank_inv svec ivec i st =
     (case st of (s, d, arr) \<Rightarrow>
        d \<le> i \<and> s = sum_list [i - d..<i]
        \<and> (\<forall>j. i - d \<le> j \<and> j < i \<longrightarrow> i < length svec \<and> svec ! j = svec ! i)
        \<and> (0 < i - d \<and> i - d < length svec \<longrightarrow> svec ! (i - d - 1) \<noteq> svec ! (i - d))
        \<and> length arr = length svec
        \<and> (\<forall>j < i - d. arr ! (ivec ! j) = group_average svec (svec ! j))
        \<and> sum_list (map (\<lambda>j. arr ! (ivec ! j)) [0..<i - d])
            = sum_list (map (\<lambda>j. real (j + 1)) [0..<i - d]))"

section \<open>RankCorrelation: \<^verbatim>\<open>pearson\<close>\<close>

text \<open>
  The function prints an error when the lengths differ and goes on.  Its divisions by
  \<open>n\<close> and by \<open>n - 1\<close> are outside the \<^verbatim>\<open>try\<close> block; inside it, the products
  \<^verbatim>\<open>A[i] * B[i]\<close> for \<open>i < len(A)\<close> are formed before the division whose
  \<^verbatim>\<open>ZeroDivisionError\<close> is caught.
\<close>

definition pearson :: "real list \<Rightarrow> real list \<Rightarrow> message list \<times> (py_error + real)" where
  "pearson A B =
     (let out = (if length A \<noteq> length B then [Error_pearson_length] else []);
          n = real (length A)
      in if n = 0 then (out, Inl ZeroDivisionError)
         else
           let muA = sum_list A / n;
               muB = sum_list B / n;
               diffA = map (\<lambda>x. x - muA) A;
               diffB = map (\<lambda>x. x - muB) B
           in if n - 1 = 0 then (out, Inl ZeroDivisionError)
              else
                let stdA = sqrt ((1 / (n - 1)) * sum_list (map (\<lambda>d. d * d) diffA));
                    stdB = sqrt ((1 / (n - 1)) * sum_list (map (\<lambda>d. d * d) diffB))
                in if length B < length A then (out, Inl IndexError)
                   else if (n - 1) * stdA * stdB = 0
                   then (out @ [Warning_exception ZeroDivisionError], Inr 0.0)
                   else (out, Inr ((sum_list (map (\<lambda>i. A ! i * B ! i) [0..<length A])
                                     - n * muA * muB) / ((n - 1) * stdA * stdB))))"

text \<open>
  The value returned when \<open>A\<close> is not longer than \<open>B\<close>: every quantity uses
  \<open>n = len(A)\<close>, the mean and the deviations of \<open>B\<close> run over all of \<open>B\<close>, and the
  products run over the first \<open>len(A)\<close> positions.
\<close>

definition pearson_value :: "real list \<Rightarrow> real list \<Rightarrow> real" where
  "pearson_value A B =
     (let n = real (length A);
          muA = sum_list A / n;
          muB = sum_list B / n;
          stdA = sqrt (sum_list (map (\<lambda>x. (x - muA) * (x - muA)) A) / (n - 1));
          stdB = sqrt (sum_list (map (\<lambda>x. (x - muB) * (x - muB)) B) / (n - 1))
      in if (n - 1) * stdA * stdB = 0 then 0
         else (sum_list (map (\<lambda>(a, b). a * b) (zip A B)) - n * muA * muB)
                / ((n - 1) * stdA * stdB))"

section \<open>Conformer objects and the candidate lists\<close>

text \<open>
  \<^verbatim>\<open>crest_routine\<close> and \<^verbatim>\<open>new_folders\<close> move conformer \<^emph>\<open>objects\<close> between Python lists
  and \<^verbatim>\<open>crest_routine\<close> writes into the object's \<^verbatim>\<open>optimization_info\<close> before moving it.
  Objects are therefore references into a heap; the lists hold references, and
  \<^verbatim>\<open>list.index\<close> compares them by identity (the conformer class defines no equality of
  its own).
\<close>

record conformer =
  conf_id :: int
  opt_energy :: real        \<comment> \<open>\<^verbatim>\<open>optimization_info["energy"]\<close>\<close>
  opt_info :: string        \<comment> \<open>\<^verbatim>\<open>optimization_info["info"]\<close>\<close>
  cregen_sort :: string     \<comment> \<open>\<^verbatim>\<open>optimization_info["cregen_sort"]\<close>\<close>

type_synonym ref = nat
type_synonym heap = "ref \<Rightarrow> conformer"

section \<open>PerConformerStore: \<^verbatim>\<open>new_folders\<close>\<close>

text \<open>
  What \<^verbatim>\<open>mkdir_p\<close> does for the folder of a conformer: it succeeds, or it raises while
  the directory is there all the same, or it raises and the directory is missing.
\<close>

datatype mkdir_result = Mkdir_ok | Mkdir_raised_dir_exists | Mkdir_raised_no_dir

record folders_state =
  fs_conflist :: "ref list"
  fs_save_errors :: "message list"
  fs_store_confs :: "ref list"
  fs_printed :: "message list"

text \<open>
  The loop \<^verbatim>\<open>for conf in conflist\<close> runs over the list that its body shortens: Python's
  list iterator keeps a position \<open>i\<close>, yields \<^verbatim>\<open>conflist[i]\<close> while \<open>i < len(conflist)\<close>
  and then advances.  \<^verbatim>\<open>conflist.index(conf)\<close> raises \<^verbatim>\<open>ValueError\<close> when the object is
  not in the list; the exception would leave the function from inside the handler.
\<close>

function new_folders_loop ::
  "(int \<Rightarrow> mkdir_result) \<Rightarrow> heap \<Rightarrow> nat \<Rightarrow> folders_state \<Rightarrow> py_error + folders_state" where
  "new_folders_loop mkdir_p h i s =
     (if i < length (fs_conflist s) then
        let conf = fs_conflist s ! i in
        (case mkdir_p (conf_id (h conf)) of
           Mkdir_ok \<Rightarrow> new_folders_loop mkdir_p h (i + 1) s
         | Mkdir_raised_dir_exists \<Rightarrow>
             new_folders_loop mkdir_p h (i + 1)
               (s\<lparr>fs_printed := fs_printed s @ [Printed_exception OSError]\<rparr>)
         | Mkdir_raised_no_dir \<Rightarrow>
             (case index_of (fs_conflist s) conf of
                None \<Rightarrow> Inl ValueError
              | Some j \<Rightarrow>
                  new_folders_loop mkdir_p h (i + 1)
                    (s\<lparr>fs_conflist := pop_at j (fs_conflist s),
                       fs_save_errors := fs_save_errors s @ [Was_removed_io_failed (conf_id (h conf))],
                       fs_store_confs := fs_store_confs s @ [fs_conflist s ! j],
                       fs_printed := fs_printed s @
                         [Printed_exception OSError, Error_folder (conf_id (h conf)),
                          Removed_io_failed (conf_id (h conf))]\<rparr>)))
      else Inr s)"
  by pat_completeness auto
termination
  by (relation "measure (\<lambda>(mkdir_p, h, i, s). length (fs_conflist s) - i)")
    (auto simp: pop_at_def)

declare new_folders_loop.simps [simp del]

definition new_folders ::
  "(int \<Rightarrow> mkdir_result) \<Rightarrow> heap \<Rightarrow> ref list \<Rightarrow> message list \<Rightarrow> ref list \<Rightarrow> bool
     \<Rightarrow> py_error + folders_state" where
  "new_folders mkdir_p h conflist save_errors store_confs silent =
     (case new_folders_loop mkdir_p h 0
             \<lparr>fs_conflist = conflist, fs_save_errors = save_errors,
              fs_store_confs = store_confs, fs_printed = []\<rparr> of
        Inl e \<Rightarrow> Inl e
      | Inr s \<Rightarrow>
          Inr (if silent then s else s\<lparr>fs_printed := fs_printed s @ [Constructed_folders]\<rparr>))"

section \<open>DuplicateDetector: \<^verbatim>\<open>crest_routine\<close>\<close>

text \<open>
  The surroundings of one call: the configuration flag \<^verbatim>\<open>crestcheck\<close>, whether preparing
  the scratch directory and its files raises, whether copying the seed coordinate file
  raises, what \<^verbatim>\<open>t2x\<close> returns for the coordinate file of a conformer id (its lines and
  its atom count, or the error of the file read), whether starting the external program
  raises, and the lines of \<^verbatim>\<open>enso.tags\<close> after the external program has run (\<open>None\<close> when
  the file cannot be opened).
\<close>

record crest_env =
  crestcheck :: bool
  setup_fails :: bool
  coord_copy_fails :: bool
  t2x :: "int \<Rightarrow> py_error + string list \<times> nat"
  crest_call_fails :: bool
  enso_tags :: "string list option"

text \<open>The lines written to \<^verbatim>\<open>conformers.xyz\<close>, by the format that produces them.\<close>

datatype xyz_line =
    Atom_count_line nat           \<comment> \<open>\<^verbatim>\<open>"  {}\n".format(nat)\<close>\<close>
  | Energy_line real string       \<comment> \<open>\<^verbatim>\<open>"{:20.8f}        !{}\n".format(energy, "CONF" + str(id))\<close>\<close>
  | Coordinate_line string        \<comment> \<open>\<^verbatim>\<open>line + "\n"\<close>\<close>

text \<open>One \<^verbatim>\<open>for conf in allconfs\<close> loop of the writer, appending to what the file holds.\<close>

fun write_blocks ::
  "(int \<Rightarrow> py_error + string list \<times> nat) \<Rightarrow> conformer list \<Rightarrow> xyz_line list
     \<Rightarrow> py_error + xyz_line list" where
  "write_blocks t2x_of [] out = Inr out"
| "write_blocks t2x_of (conf # allconfs) out =
     (case t2x_of (conf_id conf) of
        Inl e \<Rightarrow> Inl e
      | Inr (conf_xyz, n_at) \<Rightarrow>
          write_blocks t2x_of allconfs
            (out @ [Atom_count_line n_at,
                    Energy_line (opt_energy conf) (''CONF'' @ str_int (conf_id conf))]
                 @ map Coordinate_line conf_xyz))"

text \<open>\<^verbatim>\<open>for line in store: keep.append(line.split()[1][1:])\<close>.\<close>

fun parse_keep :: "string list \<Rightarrow> string list \<Rightarrow> py_error + string list" where
  "parse_keep [] keep = Inr keep"
| "parse_keep (line # store) keep =
     (case py_split line of
        t0 # t1 # ts \<Rightarrow> parse_keep store (keep @ [drop 1 t1])
      | _ \<Rightarrow> Inl IndexError)"

text \<open>
  One removal loop, \<^verbatim>\<open>for conf in list(source)\<close>, over a snapshot of the source list.
  The state is the heap, the source list, \<^verbatim>\<open>store_confs\<close> and the printed lines; the
  second component of the result is the exception that ended the loop, if any.
\<close>

type_synonym removal_state = "heap \<times> ref list \<times> ref list \<times> message list"

fun remove_sorted_out ::
  "string list \<Rightarrow> ref list \<Rightarrow> removal_state \<Rightarrow> removal_state \<times> py_error option" where
  "remove_sorted_out keep [] s = (s, None)"
| "remove_sorted_out keep (conf # snapshot) (h, source, store_confs, out) =
     (if ''CONF'' @ str_int (conf_id (h conf)) \<notin> set keep then
        let h' = h(conf := (h conf)\<lparr>opt_info := ''calculated'', cregen_sort := ''removed''\<rparr>);
            out' = out @ [Removing_conformer (conf_id (h conf))]
        in (case index_of source conf of
              None \<Rightarrow> ((h', source, store_confs, out'), Some ValueError)
            | Some i \<Rightarrow>
                remove_sorted_out keep snapshot
                  (h', pop_at i source, store_confs @ [source ! i], out'))
      else remove_sorted_out keep snapshot (h, source, store_confs, out))"

record crest_result =
  cr_heap :: heap
  cr_conformers :: "ref list"
  cr_prev_calculated :: "ref list"
  cr_store_confs :: "ref list"
  cr_printed :: "message list"
  cr_xyz_file :: "xyz_line list"

text \<open>
  The removal step under \<^verbatim>\<open>if config.crestcheck\<close>: one \<^verbatim>\<open>try\<close> block around the parsing of
  the tags and both removal loops; every exception in it is printed and ends the step.
  \<^verbatim>\<open>store\<close> is unbound (\<^verbatim>\<open>NameError\<close>) when the tags file could not be read.
\<close>

definition removal_step ::
  "string list option \<Rightarrow> heap \<Rightarrow> ref list \<Rightarrow> ref list \<Rightarrow> ref list \<Rightarrow> message list
     \<Rightarrow> heap \<times> ref list \<times> ref list \<times> ref list \<times> message list" where
  "removal_step tags h conformers prev_calculated store_confs out =
     (case tags of
        None \<Rightarrow> (h, conformers, prev_calculated, store_confs, out @ [Error_exception NameError])
      | Some store \<Rightarrow>
          (case parse_keep store [] of
             Inl e \<Rightarrow> (h, conformers, prev_calculated, store_confs, out @ [Error_exception e])
           | Inr keep \<Rightarrow>
               (case remove_sorted_out keep conformers (h, conformers, store_confs, out) of
                  ((h1, conformers1, store1, out1), Some e) \<Rightarrow>
                    (h1, conformers1, prev_calculated, store1, out1 @ [Error_exception e])
                | ((h1, conformers1, store1, out1), None) \<Rightarrow>
                    (case remove_sorted_out keep prev_calculated
                            (h1, prev_calculated, store1, out1) of
                       ((h2, prev2, store2, out2), Some e) \<Rightarrow>
                         (h2, conformers1, prev2, store2, out2 @ [Error_exception e])
                     | ((h2, prev2, store2, out2), None) \<Rightarrow>
                         (h2, conformers1, prev2, store2, out2)))))"

definition crest_routine ::
  "crest_env \<Rightarrow> heap \<Rightarrow> ref list \<Rightarrow> ref list \<Rightarrow> ref list \<Rightarrow> py_error + crest_result" where
  "crest_routine env h conformers store_confs prev_calculated =
     (if setup_fails env then Inl OSError
      else
        let out0 = [Checking_with_cregen];
            allconfs = sort_key opt_energy (map h conformers @ map h prev_calculated);
            out1 = (if allconfs = [] then out0 @ [Error_exception IndexError]
                    else if coord_copy_fails env then out0 @ [Error_exception OSError]
                    else out0)
        in case write_blocks (t2x env) allconfs [] of
             Inl e \<Rightarrow> Inl e
           | Inr pass1 \<Rightarrow>
               (case write_blocks (t2x env) allconfs pass1 of
                  Inl e \<Rightarrow> Inl e
                | Inr xyz \<Rightarrow>
                    if crest_call_fails env then Inl OSError
                    else
                      let out2 = (case enso_tags env of
                                    None \<Rightarrow> out1 @ [Error_exception OSError, Error_no_tags_file]
                                  | Some store \<Rightarrow> out1)
                      in if crestcheck env then
                           (case removal_step (enso_tags env) h conformers prev_calculated
                                   store_confs out2 of
                              (h', conformers', prev', store', out3) \<Rightarrow>
                                Inr \<lparr>cr_heap = h', cr_conformers = conformers',
                                     cr_prev_calculated = prev', cr_store_confs = store',
                                     cr_printed = out3, cr_xyz_file = xyz\<rparr>)
                         else
                           Inr \<lparr>cr_heap = h, cr_conformers = conformers,
                                cr_prev_calculated = prev_calculated,
                                cr_store_confs = store_confs,
                                cr_printed = out2, cr_xyz_file = xyz\<rparr>))"

text \<open>
  The trajectory in the words of the specification: the merged candidates in ascending
  order of energy, and the block of one candidate (atom-count line, energy line tagged
  \<open>CONF<id>\<close>, coordinate lines).
\<close>

definition merged_candidates :: "heap \<Rightarrow> ref list \<Rightarrow> ref list \<Rightarrow> conformer list" where
  "merged_candidates h conformers prev_calculated =
     sort_key opt_energy (map h conformers @ map h prev_calculated)"

definition trajectory_block ::
  "(int \<Rightarrow> py_error + string list \<times> nat) \<Rightarrow> conformer \<Rightarrow> xyz_line list" where
  "trajectory_block t2x_of conf =
     (case t2x_of (conf_id conf) of
        Inl e \<Rightarrow> []
      | Inr (conf_xyz, n_at) \<Rightarrow>
          [Atom_count_line n_at, Energy_line (opt_energy conf) (''CONF'' @ str_int (conf_id conf))]
            @ map Coordinate_line conf_xyz)"

fun is_atom_count_line :: "xyz_line \<Rightarrow> bool" where
  "is_atom_count_line (Atom_count_line n) = True"
| "is_atom_count_line l = False"

text \<open>The surroundings in which every file operation and the external program succeed.\<close>

definition io_succeeds :: "crest_env \<Rightarrow> heap \<Rightarrow> ref list \<Rightarrow> bool" where
  "io_succeeds env h refs =
     (\<not> setup_fails env \<and> \<not> crest_call_fails env
      \<and> list_all (\<lambda>r. case t2x env (conf_id (h r)) of Inl e \<Rightarrow> False | Inr res \<Rightarrow> True) refs)"

text \<open>Small concrete surroundings and heaps for evaluating the functions.\<close>

definition conf_of :: "int \<Rightarrow> real \<Rightarrow> conformer" where
  "conf_of i e = \<lparr>conf_id = i, opt_energy = e, opt_info = [], cregen_sort = []\<rparr>"

definition numbered_heap :: heap where
  "numbered_heap r = conf_of (int r + 1) (- real r)"

definition quiet_env :: "bool \<Rightarrow> string list option \<Rightarrow> crest_env" where
  "quiet_env check tags =
     \<lparr>crestcheck = check, setup_fails = False, coord_copy_fails = False,
      t2x = (\<lambda>i. Inr ([''H 0 0 0''], 1)), crest_call_fails = False, enso_tags = tags\<rparr>"

section \<open>Sequences of list-moving operations\<close>

text \<open>
  The candidate lists a run of the pipeline carries, and the two operations that move
  conformers between them.  A call that raises leaves through the exception before it
  has touched a list, so the lists stay as they were.
\<close>

record pipeline_state =
  ps_heap :: heap
  ps_conformers :: "ref list"           \<comment> \<open>the active list\<close>
  ps_prev_calculated :: "ref list"      \<comment> \<open>the previously calculated list\<close>
  ps_store_confs :: "ref list"          \<comment> \<open>the removed/stored list\<close>
  ps_save_errors :: "message list"

datatype pipeline_op =
    Op_crest_routine crest_env
  | Op_new_folders "int \<Rightarrow> mkdir_result" bool

fun apply_op :: "pipeline_op \<Rightarrow> pipeline_state \<Rightarrow> pipeline_state" where
  "apply_op (Op_crest_routine env) s =
     (case crest_routine env (ps_heap s) (ps_conformers s) (ps_store_confs s)
             (ps_prev_calculated s) of
        Inl e \<Rightarrow> s
      | Inr r \<Rightarrow>
          s\<lparr>ps_heap := cr_heap r, ps_conformers := cr_conformers r,
            ps_prev_calculated := cr_prev_calculated r, ps_store_confs := cr_store_confs r\<rparr>)"
| "apply_op (Op_new_folders mkdir_p silent) s =
     (case new_folders mkdir_p (ps_heap s) (ps_conformers s) (ps_save_errors s)
             (ps_store_confs s) silent of
        Inl e \<Rightarrow> s
      | Inr f \<Rightarrow>
          s\<lparr>ps_conformers := fs_conflist f, ps_save_errors := fs_save_errors f,
            ps_store_confs := fs_store_confs f\<rparr>)"

definition run_ops :: "pipeline_op list \<Rightarrow> pipeline_state \<Rightarrow> pipeline_state" where
  "run_ops ops s = fold apply_op ops s"

text \<open>The ids of the conformers a list of references holds.\<close>

definition ids :: "heap \<Rightarrow> ref list \<Rightarrow> int list" where
  "ids h refs = map (\<lambda>r. conf_id (h r)) refs"

definition active_ids :: "pipeline_state \<Rightarrow> int list" where
  "active_ids s = ids (ps_heap s) (ps_conformers s)"

definition prev_ids :: "pipeline_state \<Rightarrow> int list" where
  "prev_ids s = ids (ps_heap s) (ps_prev_calculated s)"

definition stored_ids :: "pipeline_state \<Rightarrow> int list" where
  "stored_ids s = ids (ps_heap s) (ps_store_confs s)"

definition all_ids :: "pipeline_state \<Rightarrow> int list" where
  "all_ids s = active_ids s @ prev_ids s @ stored_ids s"

text \<open>A restarted run: one active conformer and one previously calculated conformer.\<close>

definition restart_state :: pipeline_state where
  "restart_state = \<lparr>ps_heap = numbered_heap, ps_conformers = [0], ps_prev_calculated = [1],
     ps_store_confs = [], ps_save_errors = []\<rparr>"

section \<open>FailureTriage: \<^verbatim>\<open>check_tasks\<close>\<close>

text \<open>
  A result object carries a job dictionary of which \<^verbatim>\<open>check_tasks\<close> reads the entry
  \<^verbatim>\<open>"success"\<close>.  The function either returns normally or leaves the process through
  \<^verbatim>\<open>sys.exit(1)\<close>.
\<close>

record task_result =
  success :: bool

datatype exit_status = Returned | Exited nat

text \<open>The counting loop: \<^verbatim>\<open>for item in results: if not item.job["success"]: counter += 1\<close>.\<close>

fun count_failures :: "task_result list \<Rightarrow> nat \<Rightarrow> nat" where
  "count_failures [] counter = counter"
| "count_failures (item # results) counter =
     count_failures results (if \<not> success item then counter + 1 else counter)"

definition check_tasks :: "task_result list \<Rightarrow> bool \<Rightarrow> real \<Rightarrow> message list \<times> exit_status" where
  "check_tasks results check thresh =
     (let counter = count_failures results 0 in
      if length results = 0 then ([Error_too_many_failed], Exited 1)
      else
        let fail_rate = real counter / real (length results) in
        if fail_rate \<ge> thresh \<and> check then ([Error_percent_failed (fail_rate * 100)], Exited 1)
        else if fail_rate \<ge> thresh then ([Warning_percent_failed (fail_rate * 100)], Returned)
        else ([], Returned))"

text \<open>The keyword defaults of the signature: \<^verbatim>\<open>check=False, thresh=0.25\<close>.\<close>

definition check_tasks_default_thresh :: "task_result list \<Rightarrow> bool \<Rightarrow> message list \<times> exit_status" where
  "check_tasks_default_thresh results check = check_tasks results check 0.25"

text \<open>The quantities the specification names: the number of failed and of all results.\<close>

definition countFailed :: "task_result list \<Rightarrow> nat" where
  "countFailed results = length (filter (\<lambda>item. \<not> success item) results)"

definition countTotal :: "task_result list \<Rightarrow> nat" where
  "countTotal results = length results"

definition failRate :: "task_result list \<Rightarrow> real" where
  "failRate results = real (countFailed results) / real (countTotal results)"

section \<open>Properties of \<^verbatim>\<open>move_recursively\<close>\<close>


lemma py_int_examples:
  "py_int ''1'' = Some 1" "py_int ''3'' = Some 3" "py_int ''save'' = None"
  "py_int [CHR 0x1F, CHR ''3''] = None" "py_int '' 3'' = Some 3"
  by (simp_all add: py_int_def int_strip_def is_int_space_def is_digit_def digits_value_def digit_value_def)

lemma numeric_suffix_separator: "numeric_suffix (''f.'' @ [CHR 0x1F, CHR ''3'']) = None"
  by (simp add: numeric_suffix_def py_int_examples)

lemma splitting_examples:
  "splitting ''f.1'' = Inr 1" "splitting ''f.3'' = Inr 3" "splitting ''f.save'' = Inr 0"
  by (simp_all add: splitting_def py_int_examples)

lemma rsplit_examples:
  "rsplit_dot ''f.1'' = Some (''f'', ''1'')" "rsplit_dot ''f.3'' = Some (''f'', ''3'')"
  by simp_all

lemma str_int_small: "str_int 2 = ''2''" "str_int 4 = ''4''"
  by (simp_all add: str_int_def str_nat.simps digit_char_def)

lemma sorted_backup_chain:
  assumes "mset listing = {#''f'', ''f.1'', ''f.3''#}"
  shows "sort_reversed_by_splitting (filter (\<lambda>item. contains item ''f.'') listing)
          = Inr [''f.3'', ''f.1'']"
proof -
  let ?new = "filter (\<lambda>item. contains item ''f.'') listing"
  let ?key = "\<lambda>item. case splitting item of Inl e \<Rightarrow> 0 | Inr k \<Rightarrow> k"
  have "mset ?new = filter_mset (\<lambda>item. contains item ''f.'') (mset listing)" by simp
  also have "\<dots> = {#''f.1'', ''f.3''#}" unfolding assms by simp
  finally have m: "mset ?new = {#''f.1'', ''f.3''#}" .
  then have s: "set ?new = {''f.1'', ''f.3''}" by (metis set_mset_mset set_mset_add_mset_insert set_mset_empty)
  have m': "mset (rev ?new) = mset [''f.1'', ''f.3'']" using m by simp
  have inj: "inj_on ?key (set (rev ?new))"
    unfolding set_rev s by (simp add: splitting_examples)
  have "sort_key ?key (rev ?new) = [''f.1'', ''f.3'']"
    by (rule sort_key_inj_key_eq [OF m' inj]) (simp add: splitting_examples)
  moreover have "\<not> list_ex (\<lambda>item. rsplit_dot item = None) ?new"
    unfolding list_ex_iff s by simp
  ultimately show ?thesis by (simp add: sort_reversed_by_splitting_def)
qed

lemma rotate_concrete:
  assumes "mset listing = {#''f'', ''f.1'', ''f.3''#}"
  shows "move_recursively listing [''f'' \<mapsto> a, ''f.1'' \<mapsto> b, ''f.3'' \<mapsto> c] ''f''
         = Inr ([''f.1'' \<mapsto> a, ''f.2'' \<mapsto> b, ''f.4'' \<mapsto> c],
                [(''f.3'', ''f.4''), (''f.1'', ''f.2''), (''f'', ''f.1'')],
                [Backing_up ''f'' ''f.1''])"
proof -
  have mem: "''f'' \<in> set listing"
    using assms by (metis set_mset_mset union_single_eq_member)
  let ?d = "[''f'' \<mapsto> a, ''f.1'' \<mapsto> b, ''f.3'' \<mapsto> c]"
  have loop: "backup_loop [''f.3'', ''f.1''] (?d, [])
     = Inr ([''f'' \<mapsto> a, ''f.2'' \<mapsto> b, ''f.4'' \<mapsto> c], [(''f.3'', ''f.4''), (''f.1'', ''f.2'')])"
    by (simp add: rsplit_examples py_int_examples str_int_small shutil_move_def Let_def fun_eq_iff)
  have last: "shutil_move [''f'' \<mapsto> a, ''f.2'' \<mapsto> b, ''f.4'' \<mapsto> c] ''f'' ''f.1''
     = Inr [''f.1'' \<mapsto> a, ''f.2'' \<mapsto> b, ''f.4'' \<mapsto> c]"
    by (simp add: shutil_move_def fun_eq_iff)
  show ?thesis
    unfolding move_recursively_def Let_def
    using sorted_backup_chain [OF assms] loop last mem by simp
qed

lemma rotate_collision_free:
  "collision_free [''f'' \<mapsto> a, ''f.1'' \<mapsto> b, ''f.3'' \<mapsto> c]
     [(''f.3'', ''f.4''), (''f.1'', ''f.2''), (''f'', ''f.1'')]"
  by simp



lemma rsplit_dot_None_iff: "rsplit_dot s = None \<longleftrightarrow> CHR ''.'' \<notin> set s"
  by (induction s) (auto split: option.splits)

lemma rsplit_dot_append:
  "CHR ''.'' \<notin> set b \<Longrightarrow> rsplit_dot (a @ ''.'' @ b) = Some (a, b)"
proof (induction a)
  case Nil
  then have "rsplit_dot b = None" by (simp add: rsplit_dot_None_iff)
  then show ?case by simp
next
  case (Cons c a)
  then show ?case by simp
qed

lemma digit_char_is_digit: "d < 10 \<Longrightarrow> is_digit (digit_char d)"
proof -
  assume "d < 10"
  then have "d < length ''0123456789''" by simp
  then have "''0123456789'' ! d \<in> set ''0123456789''" by (rule nth_mem)
  then show ?thesis by (simp only: is_digit_def digit_char_def)
qed

lemma str_nat_digits: "str_nat n \<noteq> [] \<and> (\<forall>c \<in> set (str_nat n). is_digit c)"
proof (induction n rule: str_nat.induct)
  case (1 n)
  show ?case
  proof (cases "n < 10")
    case True
    then show ?thesis by (subst (1 2) str_nat.simps) (simp add: digit_char_is_digit)
  next
    case False
    have "n mod 10 < 10" by simp
    then have "is_digit (digit_char (n mod 10))" by (rule digit_char_is_digit)
    then show ?thesis using 1 False by (subst (1 2) str_nat.simps) auto
  qed
qed

lemma is_digit_facts:
  "is_digit c \<Longrightarrow> \<not> is_int_space c \<and> c \<noteq> CHR ''_'' \<and> c \<noteq> CHR ''-'' \<and> c \<noteq> CHR ''+'' \<and> c \<noteq> CHR ''.''"
  by (auto simp: is_digit_def is_int_space_def)

lemma digits_ok_all_digits: "xs \<noteq> [] \<Longrightarrow> \<forall>c \<in> set xs. is_digit c \<Longrightarrow> digits_ok xs"
proof (induction xs rule: digits_ok.induct)
  case 1
  then show ?case by simp
next
  case (2 c)
  then show ?case by simp
next
  case (3 c d cs)
  then have "d \<noteq> CHR ''_''" using is_digit_facts [of d] by simp
  then show ?case using 3 by simp
qed

lemma dropWhile_hd: "s \<noteq> [] \<Longrightarrow> \<not> P (hd s) \<Longrightarrow> dropWhile P s = s"
  by (cases s) auto

lemma int_strip_id:
  "s \<noteq> [] \<Longrightarrow> \<not> is_int_space (hd s) \<Longrightarrow> \<not> is_int_space (last s) \<Longrightarrow> int_strip s = s"
  by (simp add: int_strip_def dropWhile_hd hd_rev)

lemma py_int_str_int: "py_int (str_int n) \<noteq> None"
proof -
  let ?m = "str_nat (nat \<bar>n\<bar>)"
  have ne: "?m \<noteq> []" and dg: "\<forall>c \<in> set ?m. is_digit c" using str_nat_digits by auto
  have hd: "is_digit (hd ?m)" and lst: "is_digit (last ?m)" using ne dg by auto
  have ok: "digits_ok ?m" using digits_ok_all_digits [OF ne dg] .
  show ?thesis
  proof (cases "n < 0")
    case True
    then have s: "str_int n = CHR ''-'' # ?m" by (simp add: str_int_def abs_if)
    have "\<not> is_int_space (CHR ''-'')" by (simp add: is_int_space_def)
    moreover have "\<not> is_int_space (last (CHR ''-'' # ?m))" using ne lst is_digit_facts by simp
    ultimately have "int_strip (str_int n) = CHR ''-'' # ?m" unfolding s by (simp add: int_strip_id)
    then show ?thesis using ok by (simp add: py_int_def)
  next
    case False
    then have s: "str_int n = ?m" by (simp add: str_int_def abs_if)
    have "int_strip ?m = ?m" using ne hd lst is_digit_facts by (simp add: int_strip_id)
    moreover obtain c r where cr: "?m = c # r" using ne by (cases ?m) auto
    moreover have "c \<noteq> CHR ''-''" "c \<noteq> CHR ''+''" using hd cr is_digit_facts [of c] by auto
    ultimately show ?thesis using ok unfolding s by (simp add: py_int_def)
  qed
qed

lemma str_int_no_dot: "CHR ''.'' \<notin> set (str_int n)"
proof -
  have "CHR ''.'' \<notin> set (str_nat m)" for m
    using str_nat_digits [of m] is_digit_facts [of "CHR ''.''"] by auto
  then show ?thesis by (simp add: str_int_def)
qed

lemma numeric_suffix_target: "numeric_suffix (a @ ''.'' @ str_int n) \<noteq> None"
  using rsplit_dot_append [OF str_int_no_dot, of a n] py_int_str_int [of n]
  by (simp add: numeric_suffix_def)

lemma numeric_suffix_dot1: "numeric_suffix (a @ ''.1'') \<noteq> None"
proof -
  have "rsplit_dot (a @ ''.'' @ ''1'') = Some (a, ''1'')" by (rule rsplit_dot_append) simp
  then show ?thesis by (simp add: numeric_suffix_def py_int_examples)
qed

lemma backup_loop_untouched:
  "backup_loop items (dir, renames) = Inr (dir', renames') \<Longrightarrow>
   numeric_renames renames \<Longrightarrow>
   numeric_renames renames' \<and> (numeric_suffix item = None \<longrightarrow> dir' item = dir item)"
proof (induction items arbitrary: dir renames)
  case Nil
  then show ?case by simp
next
  case (Cons x items)
  from Cons.prems(1) obtain d0 d1 where r: "rsplit_dot x = Some (d0, d1)"
    by (auto split: option.splits)
  show ?case
  proof (cases "py_int d1")
    case None
    then show ?thesis using Cons r by simp
  next
    case (Some k)
    let ?new = "d0 @ ''.'' @ str_int (k + 1)"
    from Cons.prems(1) r Some obtain content where c: "dir x = Some content"
      and run: "backup_loop items ((dir(x := None))(?new \<mapsto> content), renames @ [(x, ?new)])
                 = Inr (dir', renames')"
      by (auto simp: Let_def shutil_move_def split: option.splits)
    have nx: "numeric_suffix x \<noteq> None" using r Some by (simp add: numeric_suffix_def)
    have nn: "numeric_suffix ?new \<noteq> None" by (rule numeric_suffix_target)
    have "numeric_renames (renames @ [(x, ?new)])"
      using Cons.prems(2) nx nn by (simp add: numeric_renames_def)
    from Cons.IH [OF run this] show ?thesis using nx nn by auto
  qed
qed

lemma move_recursively_untouched:
  assumes run: "move_recursively listing dir filename = Inr (dir', renames, out)"
    and item: "item \<noteq> filename" "numeric_suffix item = None"
  shows "dir' item = dir item \<and> item \<notin> fst ` set renames \<and> item \<notin> snd ` set renames"
proof -
  from run obtain sorted_files dir1 renames1 where
    loop: "backup_loop sorted_files (dir, []) = Inr (dir1, renames1)"
    and fin: "(filename \<in> set listing \<and> dir1 filename \<noteq> None
                \<and> dir' = (dir1(filename := None))(filename @ ''.1'' := dir1 filename)
                \<and> renames = renames1 @ [(filename, filename @ ''.1'')])
              \<or> (filename \<notin> set listing \<and> dir' = dir1 \<and> renames = renames1)"
    by (auto simp: move_recursively_def Let_def shutil_move_def
        split: sum.splits if_splits option.splits)
  have "numeric_renames []" by (simp add: numeric_renames_def)
  from backup_loop_untouched [OF loop this, of item] item
  have n1: "numeric_renames renames1" and d1: "dir1 item = dir item" by auto
  have t1: "item \<noteq> filename @ ''.1''" using numeric_suffix_dot1 [of filename] item by auto
  have "item \<notin> fst ` set renames1 \<and> item \<notin> snd ` set renames1"
    using n1 item by (auto simp: numeric_renames_def list_all_iff)
  then show ?thesis using fin d1 t1 item by auto
qed



lemma contains_facts: "contains s sub \<Longrightarrow> set sub \<subseteq> set s \<and> length sub \<le> length s"
proof (induction s)
  case Nil
  then show ?case by simp
next
  case (Cons c cs)
  show ?case
  proof (cases "take (length sub) (c # cs) = sub")
    case True
    have "set (take (length sub) (c # cs)) \<subseteq> set (c # cs)" by (rule set_take_subset)
    moreover have "length (take (length sub) (c # cs)) \<le> length (c # cs)" by simp
    ultimately show ?thesis unfolding True by simp
  next
    case False
    then have "contains cs sub" using Cons.prems by simp
    from Cons.IH [OF this] show ?thesis by auto
  qed
qed

lemma newfiles_facts:
  assumes "contains item (filename @ ''.'')"
  shows "rsplit_dot item \<noteq> None" and "item \<noteq> filename"
proof -
  from contains_facts [OF assms] have "CHR ''.'' \<in> set item" and l: "length filename < length item"
    by auto
  then show "rsplit_dot item \<noteq> None" by (simp add: rsplit_dot_None_iff)
  show "item \<noteq> filename" using l by auto
qed

lemma backup_loop_returns:
  "distinct items \<Longrightarrow> \<forall>i \<in> set items. dir i \<noteq> None \<and> rsplit_dot i \<noteq> None \<Longrightarrow>
   \<exists>dir' renames'. backup_loop items (dir, renames) = Inr (dir', renames')
      \<and> (\<forall>x. x \<notin> set items \<and> dir x \<noteq> None \<longrightarrow> dir' x \<noteq> None)"
proof (induction items arbitrary: dir renames)
  case Nil
  then show ?case by simp
next
  case (Cons x items)
  then obtain d0 d1 content where r: "rsplit_dot x = Some (d0, d1)" and c: "dir x = Some content"
    by auto
  show ?case
  proof (cases "py_int d1")
    case None
    have "\<exists>dir' renames'. backup_loop items (dir, renames) = Inr (dir', renames')
      \<and> (\<forall>x. x \<notin> set items \<and> dir x \<noteq> None \<longrightarrow> dir' x \<noteq> None)"
      using Cons.prems by (intro Cons.IH) auto
    then show ?thesis using r None by auto
  next
    case (Some k)
    let ?new = "d0 @ ''.'' @ str_int (k + 1)"
    let ?dir = "(dir(x := None))(?new \<mapsto> content)"
    have "\<exists>dir' renames'. backup_loop items (?dir, renames @ [(x, ?new)]) = Inr (dir', renames')
      \<and> (\<forall>y. y \<notin> set items \<and> ?dir y \<noteq> None \<longrightarrow> dir' y \<noteq> None)"
      using Cons.prems by (intro Cons.IH) auto
    then obtain dir' renames' where
      run: "backup_loop items (?dir, renames @ [(x, ?new)]) = Inr (dir', renames')"
      and keep: "\<forall>y. y \<notin> set items \<and> ?dir y \<noteq> None \<longrightarrow> dir' y \<noteq> None" by blast
    have "backup_loop (x # items) (dir, renames) = Inr (dir', renames')"
      using r Some c run by (simp add: Let_def shutil_move_def)
    moreover have "\<forall>y. y \<notin> set (x # items) \<and> dir y \<noteq> None \<longrightarrow> dir' y \<noteq> None"
      using keep by auto
    ultimately show ?thesis by blast
  qed
qed

lemma move_recursively_returns:
  assumes d: "distinct listing" and ex: "set listing \<subseteq> dom dir"
  shows "\<exists>res. move_recursively listing dir filename = Inr res"
proof -
  let ?new = "filter (\<lambda>item. contains item (filename @ ''.'')) listing"
  let ?key = "\<lambda>item. case splitting item of Inl e \<Rightarrow> 0 | Inr k \<Rightarrow> k"
  let ?sorted = "rev (sort_key ?key (rev ?new))"
  have nf: "\<forall>i \<in> set ?new. rsplit_dot i \<noteq> None \<and> i \<noteq> filename \<and> dir i \<noteq> None"
    using newfiles_facts ex by auto
  then have srt: "sort_reversed_by_splitting ?new = Inr ?sorted"
    by (auto simp: sort_reversed_by_splitting_def list_ex_iff)
  have ds: "distinct ?sorted" using d by simp
  have ss: "set ?sorted = set ?new" by simp
  have pre: "\<forall>i \<in> set ?sorted. dir i \<noteq> None \<and> rsplit_dot i \<noteq> None"
    unfolding ss using nf by blast
  from backup_loop_returns [OF ds pre, of "[]"] obtain dir1 renames1 where
    loop: "backup_loop ?sorted (dir, []) = Inr (dir1, renames1)"
    and keep: "\<forall>x. x \<notin> set ?sorted \<and> dir x \<noteq> None \<longrightarrow> dir1 x \<noteq> None" by blast
  show ?thesis
  proof (cases "filename \<in> set listing")
    case False
    then show ?thesis using srt loop by (simp add: move_recursively_def Let_def)
  next
    case True
    then have "dir filename \<noteq> None" using ex by auto
    moreover have "filename \<notin> set ?sorted" unfolding ss using nf by blast
    ultimately obtain content where "dir1 filename = Some content" using keep by blast
    then show ?thesis using srt loop True
      by (simp add: move_recursively_def Let_def shutil_move_def)
  qed
qed

text \<open>
  Claim C8.  On a directory holding the files \<open>f\<close>, \<open>f.1\<close> and \<open>f.3\<close>, in whatever order
  the directory lists them, \<^verbatim>\<open>move_recursively\<close> renames \<open>f.3\<close> to \<open>f.4\<close>, then \<open>f.1\<close> to
  \<open>f.2\<close>, then \<open>f\<close> to \<open>f.1\<close>: the numeric suffixes go in descending order and no
  rename meets an existing target.  In any directory, a file other than the backed-up
  file itself whose part after the last dot is no integer (such as \<open>f.save\<close>) is left
  untouched: it is neither renamed nor replaced.  The call returns on every directory
  listing without repetitions.
\<close>

theorem move_recursively_backup:
  "(mset listing = {#''f'', ''f.1'', ''f.3''#} \<longrightarrow>
      move_recursively listing [''f'' \<mapsto> a, ''f.1'' \<mapsto> b, ''f.3'' \<mapsto> c] ''f''
        = Inr ([''f.1'' \<mapsto> a, ''f.2'' \<mapsto> b, ''f.4'' \<mapsto> c],
               [(''f.3'', ''f.4''), (''f.1'', ''f.2''), (''f'', ''f.1'')],
               [Backing_up ''f'' ''f.1''])
      \<and> collision_free [''f'' \<mapsto> a, ''f.1'' \<mapsto> b, ''f.3'' \<mapsto> c]
               [(''f.3'', ''f.4''), (''f.1'', ''f.2''), (''f'', ''f.1'')])
   \<and> (\<forall>dir' renames out.
        move_recursively files dir filename = Inr (dir', renames, out)
        \<and> item \<noteq> filename \<and> numeric_suffix item = None \<longrightarrow>
        dir' item = dir item \<and> item \<notin> fst ` set renames \<and> item \<notin> snd ` set renames)
   \<and> (distinct files \<and> set files \<subseteq> dom dir \<longrightarrow>
        (\<exists>res. move_recursively files dir filename = Inr res))"
  using rotate_concrete [of listing a b c] rotate_collision_free [of a b c]
    move_recursively_untouched [of files dir filename _ _ _ item]
    move_recursively_returns [of files dir filename]
  by blast

theorem move_recursively_backup_witness:
  "mset [''f.1'', ''f'', ''f.3''] = {#''f'', ''f.1'', ''f.3''#}
   \<and> move_recursively [''f.1'', ''f'', ''f.3''] [''f'' \<mapsto> (10::nat), ''f.1'' \<mapsto> 11, ''f.3'' \<mapsto> 13] ''f''
       = Inr ([''f.1'' \<mapsto> 10, ''f.2'' \<mapsto> 11, ''f.4'' \<mapsto> 13],
              [(''f.3'', ''f.4''), (''f.1'', ''f.2''), (''f'', ''f.1'')],
              [Backing_up ''f'' ''f.1''])
   \<and> distinct [''f.save'', ''f.1'', ''f'']
   \<and> set [''f.save'', ''f.1'', ''f''] \<subseteq> dom [''f'' \<mapsto> (10::nat), ''f.1'' \<mapsto> 11, ''f.save'' \<mapsto> 12]
   \<and> ''f.save'' \<noteq> ''f'' \<and> numeric_suffix ''f.save'' = None
   \<and> (\<exists>dir' renames out.
        move_recursively [''f.save'', ''f.1'', ''f''] [''f'' \<mapsto> (10::nat), ''f.1'' \<mapsto> 11, ''f.save'' \<mapsto> 12] ''f''
          = Inr (dir', renames, out)
        \<and> dir' ''f.save'' = Some 12 \<and> ''f.save'' \<notin> fst ` set renames)"
proof -
  let ?l = "[''f.save'', ''f.1'', ''f'']"
  let ?d = "[''f'' \<mapsto> (10::nat), ''f.1'' \<mapsto> 11, ''f.save'' \<mapsto> 12]"
  have m: "mset [''f.1'', ''f'', ''f.3''] = {#''f'', ''f.1'', ''f.3''#}" by simp
  have dl: "distinct ?l" "set ?l \<subseteq> dom ?d" by simp_all
  have ns: "numeric_suffix ''f.save'' = None" by (simp add: numeric_suffix_def py_int_examples)
  note th = move_recursively_backup [of "[''f.1'', ''f'', ''f.3'']" "10::nat" 11 13 ?l ?d "''f''" "''f.save''"]
  from th dl obtain res where res: "move_recursively ?l ?d ''f'' = Inr res" by blast
  obtain dir' renames out where r: "res = (dir', renames, out)" by (cases res)
  have "dir' ''f.save'' = ?d ''f.save'' \<and> ''f.save'' \<notin> fst ` set renames"
    using th res r ns by blast
  then show ?thesis using th m dl ns res r by simp
qed

section \<open>Properties of \<^verbatim>\<open>calc_boltzmannweights\<close>\<close>


lemma bsum_loop_sum:
  "bsum_loop AU2J KB T minfree confs b = Inr s \<Longrightarrow>
   s = b + sum_list (map (term_of AU2J KB T minfree) confs)"
  by (induction confs arbitrary: b) (fastforce simp: term_of_def split: sum.splits)+

lemma weight_loop_result:
  "weight_loop AU2J KB T minfree bsum confs = Inr confs' \<Longrightarrow>
   confs' = map (\<lambda>c. c(''bm_weight'' \<mapsto> term_of AU2J KB T minfree c / bsum)) confs
   \<and> (confs \<noteq> [] \<longrightarrow> bsum \<noteq> 0)"
  by (induction confs arbitrary: confs') (auto simp: term_of_def split: sum.splits if_splits)

lemma term_of_nonneg:
  "0 \<le> getattr_default c ''gi'' 1 \<Longrightarrow> 0 \<le> term_of AU2J KB T minfree c"
  by (auto simp: term_of_def boltzmann_term_def split: option.splits)

lemma sum_list_div_const:
  "sum_list (map (\<lambda>t. t / c) ts) = sum_list ts / (c::real)"
  by (induction ts) (simp_all add: add_divide_distrib)

lemma normalised_weights:
  fixes ts :: "real list"
  assumes nonneg: "\<forall>t \<in> set ts. 0 \<le> t" and nz: "sum_list ts \<noteq> 0"
  shows "(\<forall>w \<in> set (map (\<lambda>t. t / sum_list ts) ts). 0 \<le> w \<and> w \<le> 1)
       \<and> sum_list (map (\<lambda>t. t / sum_list ts) ts) = 1"
proof -
  have s0: "0 \<le> sum_list ts" using nonneg by (simp add: sum_list_nonneg)
  then have pos: "0 < sum_list ts" using nz by simp
  have "t \<le> sum_list ts" if "t \<in> set ts" for t
    using that nonneg by (simp add: member_le_sum_list)
  then have a: "\<forall>w \<in> set (map (\<lambda>t. t / sum_list ts) ts). 0 \<le> w \<and> w \<le> 1"
    using nonneg pos by (auto simp: divide_le_eq_1)
  have "sum_list (map (\<lambda>t. t / sum_list ts) ts) = sum_list ts / sum_list ts"
    by (rule sum_list_div_const)
  then show ?thesis using a nz by simp
qed


lemma calc_boltzmannweights_many:
  assumes run: "calc_boltzmannweights AU2J KB confs property T = (out, Inr confs')"
    and len: "length confs \<noteq> 1"
  shows "\<exists>T2 minfree.
           confs' = map (\<lambda>c. c(''bm_weight'' \<mapsto> term_of AU2J KB T2 minfree c
                              / sum_list (map (term_of AU2J KB T2 minfree) confs))) confs
           \<and> (confs \<noteq> [] \<longrightarrow> sum_list (map (term_of AU2J KB T2 minfree) confs) \<noteq> 0)"
proof -
  from run len obtain T2 minfree bsum where
    b: "bsum_loop AU2J KB T2 minfree confs 0 = Inr bsum"
    and w: "weight_loop AU2J KB T2 minfree bsum confs = Inr confs'"
    by (auto simp: calc_boltzmannweights_def Let_def split: if_splits sum.splits prod.splits)
  have "bsum = sum_list (map (term_of AU2J KB T2 minfree) confs)"
    using bsum_loop_sum [OF b] by simp
  then show ?thesis using weight_loop_result [OF w] by blast
qed

lemma calc_boltzmannweights_unit_sum:
  assumes run: "calc_boltzmannweights AU2J KB confs property T = (out, Inr confs')"
    and ne: "confs \<noteq> []"
    and gi: "\<forall>c \<in> set confs. 0 \<le> getattr_default c ''gi'' 1"
  shows "length confs' = length confs
       \<and> (\<forall>c' \<in> set confs'. c' ''bm_weight'' \<noteq> None)
       \<and> (\<forall>w \<in> set (bm_weights confs'). 0 \<le> w \<and> w \<le> 1)
       \<and> sum_list (bm_weights confs') = 1"
proof (cases "length confs = 1")
  case True
  then have "confs' = [(confs ! 0)(''bm_weight'' \<mapsto> 1)]"
    using run by (simp add: calc_boltzmannweights_def)
  then show ?thesis using True by (simp add: bm_weights_def)
next
  case False
  from calc_boltzmannweights_many [OF run False] ne obtain T2 minfree where
    c': "confs' = map (\<lambda>c. c(''bm_weight'' \<mapsto> term_of AU2J KB T2 minfree c
                              / sum_list (map (term_of AU2J KB T2 minfree) confs))) confs"
    and nz: "sum_list (map (term_of AU2J KB T2 minfree) confs) \<noteq> 0"
    by blast
  let ?ts = "map (term_of AU2J KB T2 minfree) confs"
  have bw: "bm_weights confs' = map (\<lambda>t. t / sum_list ?ts) ?ts"
    by (simp add: c' bm_weights_def comp_def)
  have "\<forall>t \<in> set ?ts. 0 \<le> t" using gi term_of_nonneg by auto
  from normalised_weights [OF this nz] show ?thesis
    unfolding bw by (simp add: c')
qed

text \<open>
  In exact arithmetic the weights of a completed run with non-negative degeneracy factors
  lie in \<open>[0, 1]\<close> and sum to exactly 1 (lemma above); the range of doubles is treated
  in the next section.
\<close>

lemma half_of_double: "t \<noteq> 0 \<Longrightarrow> t / (t + t) = (1::real) / 2"
  by (simp add: field_simps)

lemma below_half: "0 < f \<Longrightarrow> f < 1 \<Longrightarrow> f / (f + 1) < (1::real) / 2"
  by (simp add: field_simps)

lemma above_half: "0 < f \<Longrightarrow> f < 1 \<Longrightarrow> 1 / (f + 1) > (1::real) / 2"
  by (simp add: field_simps)

lemma equal_terms_weights:
  assumes "boltzmann_term AU2J KB T m c1 = Inr t" and "boltzmann_term AU2J KB T m c2 = Inr t"
    and "0 < t"
  shows "bsum_loop AU2J KB T m [c1, c2] 0 = Inr (t + t)"
    and "weight_loop AU2J KB T m (t + t) [c1, c2]
          = Inr [c1(''bm_weight'' \<mapsto> 1 / 2), c2(''bm_weight'' \<mapsto> 1 / 2)]"
  using assms half_of_double [of t] by simp_all

lemma equal_free_energy_equal_weights:
  assumes T: "T \<noteq> 0" and KT: "KB * T \<noteq> 0"
    and c1: "c1 ''free_energy'' = Some e" "c1 ''gi'' = None" "c1 property = Some a"
    and c2: "c2 ''free_energy'' = Some e" "c2 ''gi'' = None" "c2 property = Some b"
  shows "calc_boltzmannweights AU2J KB [c1, c2] property (T_number T)
         = ([], Inr [c1(''bm_weight'' \<mapsto> 1 / 2), c2(''bm_weight'' \<mapsto> 1 / 2)])"
proof -
  let ?m = "Some (min_list [a, b])"
  let ?t = "exp (- ((e - min_list [a, b]) * AU2J) / (KB * T))"
  have t1: "boltzmann_term AU2J KB T ?m c1 = Inr ?t"
    and t2: "boltzmann_term AU2J KB T ?m c2 = Inr ?t"
    using KT c1 c2 by (simp_all add: boltzmann_term_def getattr_default_def)
  have tpos: "0 < ?t" by (rule exp_gt_zero)
  have vals: "map the (filter (\<lambda>v. v \<noteq> None) (map (\<lambda>conf. conf property) [c1, c2])) = [a, b]"
    using c1 c2 by simp
  show ?thesis
    unfolding calc_boltzmannweights_def vals Let_def
    using T equal_terms_weights [OF t1 t2 tpos] by simp
qed

text \<open>
  Claim C2.  The specification takes \<open>E_i\<close> to be the value of the chosen property on
  conformer \<open>i\<close>.  The code takes the minimum from the chosen property but the energy in
  the exponent from \<^verbatim>\<open>item.free_energy\<close>.  On two conformers with equal free energy and
  different \<^verbatim>\<open>xtb_energy\<close>, weighted by \<^verbatim>\<open>xtb_energy\<close>, the code assigns 1/2 to both,
  where the formula of the specification gives less than 1/2 to the first and more than
  1/2 to the second.
\<close>

theorem calc_boltzmannweights_ignores_property:
  assumes "0 < AU2J" and "0 < KB"
  shows "calc_boltzmannweights AU2J KB
           [[''free_energy'' \<mapsto> - 1, ''xtb_energy'' \<mapsto> - 1],
            [''free_energy'' \<mapsto> - 1, ''xtb_energy'' \<mapsto> - 1001 / 1000]]
           ''xtb_energy'' (T_number 298.15)
         = ([], Inr [[''free_energy'' \<mapsto> - 1, ''xtb_energy'' \<mapsto> - 1, ''bm_weight'' \<mapsto> 1 / 2],
                     [''free_energy'' \<mapsto> - 1, ''xtb_energy'' \<mapsto> - 1001 / 1000, ''bm_weight'' \<mapsto> 1 / 2]])
       \<and> spec_weight AU2J KB 298.15
           [[''free_energy'' \<mapsto> - 1, ''xtb_energy'' \<mapsto> - 1],
            [''free_energy'' \<mapsto> - 1, ''xtb_energy'' \<mapsto> - 1001 / 1000]] ''xtb_energy'' 0 < 1 / 2
       \<and> spec_weight AU2J KB 298.15
           [[''free_energy'' \<mapsto> - 1, ''xtb_energy'' \<mapsto> - 1],
            [''free_energy'' \<mapsto> - 1, ''xtb_energy'' \<mapsto> - 1001 / 1000]] ''xtb_energy'' 1 > 1 / 2"
proof -
  let ?c1 = "[''free_energy'' \<mapsto> - 1, ''xtb_energy'' \<mapsto> - (1::real)]"
  let ?c2 = "[''free_energy'' \<mapsto> - 1, ''xtb_energy'' \<mapsto> - 1001 / (1000::real)]"
  let ?T = "298.15 :: real"
  have kt: "KB * ?T \<noteq> 0" "0 < KB * ?T" using assms by simp_all
  have vals: "map the (filter (\<lambda>v. v \<noteq> None) (map (\<lambda>conf. conf ''xtb_energy'') [?c1, ?c2]))
      = [- 1, - 1001 / 1000]" by simp
  have mn: "min_list [- 1, - 1001 / (1000::real)] = - 1001 / 1000" by simp
  let ?t = "exp (- ((- 1 - (- 1001 / 1000)) * AU2J) / (KB * ?T))"
  have code: "calc_boltzmannweights AU2J KB [?c1, ?c2] ''xtb_energy'' (T_number ?T)
      = ([], Inr [?c1(''bm_weight'' \<mapsto> 1 / 2), ?c2(''bm_weight'' \<mapsto> 1 / 2)])"
    using equal_free_energy_equal_weights [where T = ?T and KB = KB and ?c1.0 = ?c1 and ?c2.0 = ?c2
        and property = "''xtb_energy''" and e = "- 1" and a = "- 1" and b = "- 1001 / 1000"
        and ?AU2J.0 = AU2J] kt
    by simp
  let ?f = "exp (- (1 / 1000) * AU2J / (KB * ?T))"
  have emin: "spec_E_min [?c1, ?c2] ''xtb_energy'' = - 1001 / 1000"
    unfolding spec_E_min_def vals mn ..
  have f1: "spec_factor AU2J KB ?T [?c1, ?c2] ''xtb_energy'' ?c1 = ?f"
    unfolding spec_factor_def emin by (simp add: getattr_default_def)
  have f2: "spec_factor AU2J KB ?T [?c1, ?c2] ''xtb_energy'' ?c2 = 1"
    unfolding spec_factor_def emin by (simp add: getattr_default_def)
  have "- (1 / 1000) * AU2J / (KB * ?T) < 0"
    using assms by (simp add: field_simps)
  then have flt: "?f < 1" by (simp only: exp_less_one_iff)
  have fpos: "0 < ?f" by (rule exp_gt_zero)
  have w1: "spec_weight AU2J KB ?T [?c1, ?c2] ''xtb_energy'' 0 = ?f / (?f + 1)"
    using f1 f2 by (simp add: spec_weight_def)
  have w2: "spec_weight AU2J KB ?T [?c1, ?c2] ''xtb_energy'' 1 = 1 / (?f + 1)"
    using f1 f2 by (simp add: spec_weight_def)
  have "?f / (?f + 1) < 1 / 2" by (rule below_half [OF fpos flt])
  then have l1: "spec_weight AU2J KB ?T [?c1, ?c2] ''xtb_energy'' 0 < 1 / 2"
    by (simp only: w1)
  have "1 / (?f + 1) > 1 / 2" by (rule above_half [OF fpos flt])
  then have l2: "spec_weight AU2J KB ?T [?c1, ?c2] ''xtb_energy'' 1 > 1 / 2"
    by (simp only: w2)
  show ?thesis using code l1 l2 by simp
qed

theorem calc_boltzmannweights_ignores_property_witness:
  "(0::real) < 43597482 / 10 ^ 25 \<and> (0::real) < 13806485279 / 10 ^ 33
   \<and> bm_weights (projr (snd (calc_boltzmannweights (43597482 / 10 ^ 25) (13806485279 / 10 ^ 33)
           [[''free_energy'' \<mapsto> - 1, ''xtb_energy'' \<mapsto> - 1],
            [''free_energy'' \<mapsto> - 1, ''xtb_energy'' \<mapsto> - 1001 / 1000]]
           ''xtb_energy'' (T_number 298.15)))) = [1 / 2, 1 / 2]
   \<and> spec_weight (43597482 / 10 ^ 25) (13806485279 / 10 ^ 33) 298.15
           [[''free_energy'' \<mapsto> - 1, ''xtb_energy'' \<mapsto> - 1],
            [''free_energy'' \<mapsto> - 1, ''xtb_energy'' \<mapsto> - 1001 / 1000]] ''xtb_energy'' 0 < 1 / 2"
proof -
  have p: "(0::real) < 43597482 / 10 ^ 25" "(0::real) < 13806485279 / 10 ^ 33" by simp_all
  show ?thesis
    using calc_boltzmannweights_ignores_property [OF p] p
    by (simp add: bm_weights_def)
qed

section \<open>Properties of \<^verbatim>\<open>calc_boltzmannweights\<close> in the range of doubles\<close>


lemma inverse_below_one: "1 < x \<Longrightarrow> 1 / x < (1::real)"
  by (simp add: field_simps)

lemma product_gap: "1 < a \<Longrightarrow> 2 \<le> k \<Longrightarrow> 1 < a * k - (a::real)"
proof -
  assume a: "1 < a" and k: "2 \<le> k"
  have "a * 2 \<le> a * k" using a k by (intro mult_left_mono) auto
  then show ?thesis using a by linarith
qed


lemma double_underflow_lt_1: "double_underflow < 1"
proof -
  have "(1::real) < 2 ^ 1075" by (rule one_less_power) simp_all
  then show ?thesis unfolding double_underflow_def by (rule inverse_below_one)
qed

lemma double_overflow_gt_1: "1 < double_overflow"
proof -
  have e: "(2::real) ^ (970 + 54) = 2 ^ 970 * 2 ^ 54" by (rule power_add)
  have n: "(970::nat) + 54 = 1024" by simp
  have a: "(1::real) < 2 ^ 970" by (rule one_less_power) simp_all
  have "(2::real) ^ 1 \<le> 2 ^ 54" by (rule power_increasing) simp_all
  then have k: "(2::real) \<le> 2 ^ 54" by (simp only: power_one_right)
  have "1 < (2::real) ^ 970 * 2 ^ 54 - 2 ^ 970" using a k by (rule product_gap)
  then show ?thesis unfolding double_overflow_def e [symmetric] n .
qed













lemma double_overflow_bounds: "10 ^ 308 < double_overflow" "double_overflow \<le> 2 * 10 ^ 308"
  by (simp_all add: double_overflow_def)

lemma double_underflow_small: "double_underflow < 1 / 10 ^ 300"
  by (simp add: double_underflow_def)

lemma fl_id: "double_underflow < \<bar>x\<bar> \<Longrightarrow> \<bar>x\<bar> < double_overflow \<Longrightarrow> fl x = Fin x"
  by (auto simp: fl_def)


lemma fl_moderate: "1 / 10 ^ 300 \<le> \<bar>x\<bar> \<Longrightarrow> \<bar>x\<bar> \<le> 10 ^ 308 \<Longrightarrow> fl x = Fin x"
  using double_overflow_bounds(1) double_underflow_small by (intro fl_id) linarith+














lemma fl_values:
  "fl 1 = Fin 1" "fl 2 = Fin 2" "fl (- 1) = Fin (- 1)" "fl (1 / 2) = Fin (1 / 2)"
  by (rule fl_moderate; simp)+



lemma weight_loop_double_two:
  assumes "boltzmann_term_double AU2J KB T m c1 = Inr t1"
    and "boltzmann_term_double AU2J KB T m c2 = Inr t2"
    and "bsum \<noteq> Fin 0"
  shows "weight_loop_double AU2J KB T m bsum [c1, c2]
           = Inr [(c1, fquot t1 bsum), (c2, fquot t2 bsum)]"
  using assms by (simp add: fdiv_def)


lemma example_room_temperature:
  "1 / 10 ^ 300 \<le> \<bar>example_KB * (298.15::real)\<bar>" "\<bar>example_KB * (298.15::real)\<bar> \<le> 10 ^ 308"
  "(298.15::real) \<noteq> 0"
  by (simp_all add: example_KB_def)








lemma exp_range:
  assumes "- 2 \<le> q" and "q \<le> (0::real)"
  shows "double_underflow < exp q" and "exp q < double_overflow" and "exp q \<le> 1" and "1 / 9 \<le> exp q"
proof -
  have "exp (2::real) = exp 1 * exp 1" using exp_add [of "1::real" 1] by simp
  also have "\<dots> \<le> 3 * 3" by (intro mult_mono exp_le) simp_all
  finally have e2: "exp (2::real) \<le> 9" by simp
  have "exp (- 2 :: real) = 1 / exp 2" by (simp add: exp_minus inverse_eq_divide)
  also have "\<dots> \<ge> 1 / 9" using e2 by (intro divide_left_mono) simp_all
  finally have lo: "1 / 9 \<le> exp (- 2 :: real)" .
  have "exp (- 2) \<le> exp q" using assms(1) by simp
  then show n: "1 / 9 \<le> exp q" using lo by linarith
  have "double_underflow < 1 / 9" using double_underflow_small
    by (rule less_trans) simp
  then show "double_underflow < exp q" using n by linarith
  show le1: "exp q \<le> 1" using assms(2) by simp
  then show "exp q < double_overflow" using double_overflow_gt_1 by linarith
qed

lemma term_in_range:
  assumes fe: "item ''free_energy'' = Some e" and gi: "item ''gi'' = None"
    and d: "fl (e - m) = Fin (e - m)"
    and p: "fl ((e - m) * AU2J) = Fin ((e - m) * AU2J)"
    and k: "fl (KB * T) = Fin (KB * T)" "KB * T \<noteq> 0"
    and q: "fl (- ((e - m) * AU2J) / (KB * T)) = Fin (- ((e - m) * AU2J) / (KB * T))"
    and r: "- 2 \<le> - ((e - m) * AU2J) / (KB * T)" "- ((e - m) * AU2J) / (KB * T) \<le> 0"
  shows "boltzmann_term_double AU2J KB T (Some m) item
           = Inr (Fin (exp (- ((e - m) * AU2J) / (KB * T))))"
proof -
  let ?q = "- ((e - m) * AU2J) / (KB * T)"
  note er = exp_range [OF r]
  have x: "fl (exp ?q) = Fin (exp ?q)"
    using er(1,2) by (intro fl_id) simp_all
  have ng: "\<not> double_overflow \<le> exp ?q" using er(2) by simp
  have dv: "fdiv (fneg (fmul (fl (e - m)) (Fin AU2J))) (fl (KB * T)) = Inr (Fin ?q)"
    using k(2) q by (simp add: d p k(1) fdiv_def)
  have ex: "fexp (Fin ?q) = Inr (Fin (exp ?q))" using ng x by simp
  show ?thesis
    using dv ex x by (simp add: boltzmann_term_double_def fe getattr_default_def gi)
qed

lemma equal_terms_double:
  assumes t1: "boltzmann_term_double AU2J KB T m c1 = Inr (Fin t)"
    and t2: "boltzmann_term_double AU2J KB T m c2 = Inr (Fin t)"
    and t: "1 / 9 \<le> t" "t \<le> 1"
  shows "bsum_loop_double AU2J KB T m [c1, c2] (Fin 0) = Inr (Fin (t + t))"
    and "weight_loop_double AU2J KB T m (Fin (t + t)) [c1, c2]
           = Inr [(c1, Fin (1 / 2)), (c2, Fin (1 / 2))]"
proof -
  have f1: "fl t = Fin t" using t by (intro fl_moderate) simp_all
  have f2: "fl (t + t) = Fin (t + t)" using t by (intro fl_moderate) simp_all
  have h: "t / (t + t) = 1 / 2" using t by (simp add: field_simps)
  show "bsum_loop_double AU2J KB T m [c1, c2] (Fin 0) = Inr (Fin (t + t))"
    using t1 t2 f1 f2 by simp
  have nz: "Fin (t + t) \<noteq> Fin 0" using t by simp
  have "fquot (Fin t) (Fin (t + t)) = fl (t / (t + t))" by (simp only: fquot.simps)
  then have "fquot (Fin t) (Fin (t + t)) = Fin (1 / 2)" by (simp only: h fl_values(4))
  then show "weight_loop_double AU2J KB T m (Fin (t + t)) [c1, c2]
           = Inr [(c1, Fin (1 / 2)), (c2, Fin (1 / 2))]"
    using weight_loop_double_two [OF t1 t2 nz] by simp
qed

text \<open>
  The run on two conformers of equal free energy and different \<^verbatim>\<open>xtb_energy\<close> stays
  inside the range of doubles: weighted by \<^verbatim>\<open>xtb_energy\<close>, both get 1/2 here as well.
\<close>

lemma ignored_property_in_double_range:
  "calc_boltzmannweights_double example_AU2J example_KB
     [[''free_energy'' \<mapsto> - 1, ''xtb_energy'' \<mapsto> - 1],
      [''free_energy'' \<mapsto> - 1, ''xtb_energy'' \<mapsto> - 1001 / 1000]]
     ''xtb_energy'' (T_number 298.15)
   = ([], Inr [([''free_energy'' \<mapsto> - 1, ''xtb_energy'' \<mapsto> - 1], Fin (1 / 2)),
               ([''free_energy'' \<mapsto> - 1, ''xtb_energy'' \<mapsto> - 1001 / 1000], Fin (1 / 2))])"
proof -
  let ?c1 = "[''free_energy'' \<mapsto> - 1, ''xtb_energy'' \<mapsto> - (1::real)]"
  let ?c2 = "[''free_energy'' \<mapsto> - 1, ''xtb_energy'' \<mapsto> - 1001 / (1000::real)]"
  let ?T = "298.15 :: real" and ?m = "- 1001 / (1000::real)"
  let ?q = "- ((- 1 - ?m) * example_AU2J) / (example_KB * ?T)"
  have m: "minfree_of [?c1, ?c2] ''xtb_energy'' = Some ?m" by (simp add: minfree_of_def)
  have et: "effective_temperature (T_number ?T) = ?T" by (simp add: effective_temperature_def)
  have d: "fl (- 1 - ?m) = Fin (- 1 - ?m)" by (rule fl_moderate) simp_all
  have p: "fl ((- 1 - ?m) * example_AU2J) = Fin ((- 1 - ?m) * example_AU2J)"
    by (rule fl_moderate) (simp_all add: example_AU2J_def)
  have k: "fl (example_KB * ?T) = Fin (example_KB * ?T)" "example_KB * ?T \<noteq> 0"
    using example_room_temperature by (auto intro: fl_moderate)
  have q: "fl ?q = Fin ?q"
    by (rule fl_moderate) (simp_all add: example_AU2J_def example_KB_def)
  have r: "- 2 \<le> ?q" "?q \<le> 0" by (simp_all add: example_AU2J_def example_KB_def)
  have t1: "boltzmann_term_double example_AU2J example_KB ?T (Some ?m) ?c1 = Inr (Fin (exp ?q))"
    by (rule term_in_range [OF _ _ d p k q r]) simp_all
  have t2: "boltzmann_term_double example_AU2J example_KB ?T (Some ?m) ?c2 = Inr (Fin (exp ?q))"
    by (rule term_in_range [OF _ _ d p k q r]) simp_all
  note er = exp_range [OF r]
  note e = equal_terms_double [OF t1 t2 er(4) er(3)]
  have s: "boltzmann_sum_double example_AU2J example_KB [?c1, ?c2] ''xtb_energy'' (T_number ?T)
      = Inr (Fin (exp ?q + exp ?q))"
    unfolding boltzmann_sum_double_def m et using e(1) by simp
  show ?thesis
    unfolding calc_boltzmannweights_double_def s m et using e(2) by simp
qed

section \<open>Properties of \<^verbatim>\<open>rankdata\<close>\<close>

lemma assign_averank_length [simp]: "length (assign_averank ivec v js arr) = length arr"
  unfolding assign_averank_def by (induction js arbitrary: arr) auto

lemma assign_averank_nth:
  "k < length arr \<Longrightarrow>
   assign_averank ivec v js arr ! k = (if k \<in> (\<lambda>j. ivec ! j) ` set js then v else arr ! k)"
  unfolding assign_averank_def
proof (induction js arbitrary: arr)
  case Nil
  then show ?case by simp
next
  case (Cons j js)
  then show ?case by (auto simp: nth_list_update)
qed

lemma sum_list_succ_real:
  "sum_list (map (\<lambda>p. real (p + 1)) xs) = real (sum_list xs) + real (length xs)"
  by (induction xs) auto

lemma upt_split: "a \<le> b \<Longrightarrow> b \<le> c \<Longrightarrow> [a..<c] = [a..<b] @ [b..<c]"
  using upt_add_eq_append [of a b "c - b"] by simp

lemma group_positions:
  fixes svec :: "'a::linorder list"
  assumes srt: "sorted svec" and i: "i < length svec" and lo: "lo \<le> i"
    and run: "\<forall>j. lo \<le> j \<and> j < i \<longrightarrow> svec ! j = svec ! i"
    and left: "0 < lo \<longrightarrow> svec ! (lo - 1) \<noteq> svec ! lo"
    and right: "Suc i < length svec \<longrightarrow> svec ! i \<noteq> svec ! Suc i"
  shows "filter (\<lambda>p. svec ! p = svec ! i) [0..<length svec] = [lo..<Suc i]"
proof -
  have lo_eq: "svec ! lo = svec ! i" using run lo by (cases "lo = i") auto
  have split: "[0..<length svec] = [0..<lo] @ [lo..<Suc i] @ [Suc i..<length svec]"
  proof -
    have "[0..<length svec] = [0..<lo] @ [lo..<length svec]"
      using i lo upt_split [of 0 lo "length svec"] by simp
    moreover have "[lo..<length svec] = [lo..<Suc i] @ [Suc i..<length svec]"
      using i lo upt_split [of lo "Suc i" "length svec"] by simp
    ultimately show ?thesis by simp
  qed
  have below: "filter (\<lambda>p. svec ! p = svec ! i) [0..<lo] = []"
  proof (cases "lo = 0")
    case True then show ?thesis by simp
  next
    case False
    have "svec ! p \<noteq> svec ! i" if "p < lo" for p
    proof -
      have "svec ! p \<le> svec ! (lo - 1)"
        using srt that i lo by (intro sorted_nth_mono) auto
      moreover have "svec ! (lo - 1) \<le> svec ! lo"
        using srt i lo by (intro sorted_nth_mono) auto
      ultimately show ?thesis using left False lo_eq by auto
    qed
    then show ?thesis by (auto simp: filter_empty_conv)
  qed
  have above: "filter (\<lambda>p. svec ! p = svec ! i) [Suc i..<length svec] = []"
  proof -
    have "svec ! p \<noteq> svec ! i" if "Suc i \<le> p" "p < length svec" for p
    proof -
      have "svec ! Suc i \<le> svec ! p"
        using srt that by (intro sorted_nth_mono) auto
      moreover have "svec ! i \<le> svec ! Suc i"
        using srt that by (intro sorted_nth_mono) auto
      ultimately show ?thesis using right that by auto
    qed
    then show ?thesis by (auto simp: filter_empty_conv)
  qed
  have mid: "filter (\<lambda>p. svec ! p = svec ! i) [lo..<Suc i] = [lo..<Suc i]"
    using run by (auto simp: filter_id_conv less_Suc_eq)
  show ?thesis
    by (subst split) (simp only: filter_append below above mid append_Nil append_Nil2)
qed

lemma rank_inv_step:
  fixes svec :: "'a::linorder list"
  assumes srt: "sorted svec" and len: "length ivec = length svec"
    and dist: "distinct ivec" and rng: "set ivec \<subseteq> {0..<length svec}"
    and i: "i < length svec" and inv: "rank_inv svec ivec i st"
  shows "rank_inv svec ivec (Suc i) (rank_step svec ivec (length svec) i st)"
proof -
  obtain s d arr where st: "st = (s, d, arr)" by (cases st) auto
  let ?n = "length svec"
  from inv st have d: "d \<le> i" and s: "s = sum_list [i - d..<i]"
    and run: "\<forall>j. i - d \<le> j \<and> j < i \<longrightarrow> svec ! j = svec ! i"
    and left: "0 < i - d \<longrightarrow> svec ! (i - d - 1) \<noteq> svec ! (i - d)"
    and la: "length arr = ?n"
    and avg: "\<forall>j < i - d. arr ! (ivec ! j) = group_average svec (svec ! j)"
    and tot: "sum_list (map (\<lambda>j. arr ! (ivec ! j)) [0..<i - d])
            = sum_list (map (\<lambda>j. real (j + 1)) [0..<i - d])"
    using i by (auto simp: rank_inv_def)
  show ?thesis
  proof (cases "i = ?n - 1 \<or> svec ! i \<noteq> svec ! (i + 1)")
    case False
    then have ni: "Suc i < ?n" and eq: "svec ! i = svec ! Suc i" using i by auto
    have step: "rank_step svec ivec ?n i st = (s + i, d + 1, arr)"
      using False by (simp add: rank_step_def st)
    have "sum_list [i - d..<Suc i] = s + i" using s d by simp
    then show ?thesis
      unfolding step rank_inv_def using d run left la avg tot ni eq
      by (auto simp: less_Suc_eq)
  next
    case True
    let ?v = "real (s + i) / real (d + 1) + 1"
    let ?arr = "assign_averank ivec ?v [i - d..<Suc i] arr"
    have step: "rank_step svec ivec ?n i st = (0, 0, ?arr)"
      using True d by (simp add: rank_step_def st Let_def)
    have right: "Suc i < ?n \<longrightarrow> svec ! i \<noteq> svec ! Suc i" using True by auto
    have grp: "filter (\<lambda>p. svec ! p = svec ! i) [0..<?n] = [i - d..<Suc i]"
      using group_positions [OF srt i _ run left right] by simp
    have sumgrp: "sum_list [i - d..<Suc i] = s + i" using s d by simp
    have lengrp: "length [i - d..<Suc i] = d + 1" using d by simp
    have gavg: "group_average svec (svec ! i) = ?v"
      unfolding group_average_def Let_def grp sum_list_succ_real sumgrp lengrp
      by (simp add: field_simps)
    have inj: "ivec ! j = ivec ! k \<longleftrightarrow> j = k" if "j < ?n" "k < ?n" for j k
      using dist len that by (simp add: nth_eq_iff_index_eq)
    have ivlt: "ivec ! j < length arr" if "j < ?n" for j
      using rng len la that by (metis atLeastLessThan_iff nth_mem subsetD)
    have old: "?arr ! (ivec ! j) = arr ! (ivec ! j)" if "j < i - d" for j
    proof -
      have "ivec ! j \<notin> (\<lambda>j. ivec ! j) ` set [i - d..<Suc i]"
        using that i inj by auto
      then show ?thesis using assign_averank_nth [OF ivlt [of j]] that i by simp
    qed
    have new: "?arr ! (ivec ! j) = ?v" if "i - d \<le> j" "j \<le> i" for j
    proof -
      have "j \<in> set [i - d..<Suc i]" using that by (simp del: upt_Suc)
      then have "ivec ! j \<in> (\<lambda>j. ivec ! j) ` set [i - d..<Suc i]" by (rule imageI)
      then show ?thesis using assign_averank_nth [OF ivlt [of j]] that i by simp
    qed
    have a6: "?arr ! (ivec ! j) = group_average svec (svec ! j)" if "j < Suc i" for j
    proof (cases "j < i - d")
      case True
      then show ?thesis using old avg by simp
    next
      case False
      then have "svec ! j = svec ! i" using run that by (cases "j = i") auto
      then show ?thesis using new [of j] False that gavg by simp
    qed
    have a7: "sum_list (map (\<lambda>j. ?arr ! (ivec ! j)) [0..<Suc i])
            = sum_list (map (\<lambda>j. real (j + 1)) [0..<Suc i])"
    proof -
      have sp: "[0..<Suc i] = [0..<i - d] @ [i - d..<Suc i]"
        using upt_split [of 0 "i - d" "Suc i"] by simp
      have p1: "map (\<lambda>j. ?arr ! (ivec ! j)) [0..<i - d] = map (\<lambda>j. arr ! (ivec ! j)) [0..<i - d]"
        using old by simp
      have p2: "map (\<lambda>j. ?arr ! (ivec ! j)) [i - d..<Suc i] = map (\<lambda>j. ?v) [i - d..<Suc i]"
        using new by simp
      have "sum_list (map (\<lambda>j. ?v) [i - d..<Suc i]) = real (d + 1) * ?v"
        using lengrp by (simp add: sum_list_triv del: upt_Suc)
      also have "\<dots> = real (s + i) + real (d + 1)" by (simp add: field_simps)
      also have "\<dots> = sum_list (map (\<lambda>j. real (j + 1)) [i - d..<Suc i])"
        unfolding sum_list_succ_real sumgrp lengrp ..
      finally show ?thesis
        unfolding sp map_append sum_list_append p1 p2 tot by simp
    qed
    show ?thesis
      unfolding step rank_inv_def using la a6 a7 right i
      by (auto simp del: upt_Suc)
  qed
qed

lemma rank_inv_fold:
  fixes svec :: "'a::linorder list"
  assumes srt: "sorted svec" and len: "length ivec = length svec"
    and dist: "distinct ivec" and rng: "set ivec \<subseteq> {0..<length svec}"
  shows "i \<le> length svec \<Longrightarrow>
    rank_inv svec ivec i
      (fold (rank_step svec ivec (length svec)) [0..<i] (0, 0, replicate (length svec) 0))"
proof (induction i)
  case 0
  then show ?case by (simp add: rank_inv_def)
next
  case (Suc i)
  then show ?case
    using rank_inv_step [OF srt len dist rng, of i] by simp
qed



lemma rank_simple_props:
  "length (rank_simple a) = length a" "distinct (rank_simple a)"
  "set (rank_simple a) = {0..<length a}"
  "sorted (map (\<lambda>rank. a ! rank) (rank_simple a))"
  "mset (rank_simple a) = mset [0..<length a]"
  by (simp_all add: rank_simple_def sorted_sort_key)

lemma svec_is_sort: "map (\<lambda>rank. a ! rank) (rank_simple a) = sort a"
proof -
  have "mset (map (\<lambda>rank. a ! rank) (rank_simple a)) = mset (map (\<lambda>rank. a ! rank) [0..<length a])"
    by (simp add: rank_simple_props(5))
  also have "\<dots> = mset a" by (simp add: map_nth)
  finally show ?thesis
    using properties_for_sort [of "map (\<lambda>rank. a ! rank) (rank_simple a)" a] rank_simple_props(4) [of a]
    by simp
qed

lemma rankdata_inv:
  "rank_inv (sort a) (rank_simple a) (length a) (0, 0, rankdata a)
   \<and> length (rankdata a) = length a"
proof -
  let ?ivec = "rank_simple a" and ?svec = "sort a" and ?n = "length a"
  let ?st = "fold (rank_step ?svec ?ivec ?n) [0..<?n] (0, 0, replicate ?n 0)"
  have inv: "rank_inv ?svec ?ivec ?n ?st"
    using rank_inv_fold [of ?svec ?ivec ?n] rank_simple_props [of a] by simp
  obtain s d arr where st: "?st = (s, d, arr)" by (cases ?st) auto
  have d0: "d = 0"
  proof (rule ccontr)
    assume "d \<noteq> 0"
    then have "?n - d \<le> ?n - 1 \<and> ?n - 1 < ?n" using inv st by (auto simp: rank_inv_def)
    then show False using inv st by (auto simp: rank_inv_def)
  qed
  then have s0: "s = 0" using inv st by (auto simp: rank_inv_def)
  have rd: "rankdata a = arr"
    by (simp add: rankdata_def Let_def svec_is_sort st)
  have "length arr = ?n" using inv st by (auto simp: rank_inv_def)
  then show ?thesis using inv st d0 s0 rd by simp
qed

text \<open>
  Claim C4.  \<^verbatim>\<open>rankdata\<close> implements the average-rank convention with 1-based ranks:
  for every input list, the rank of each element is the average of the 1-based positions
  that its tie group occupies in the ascending sort; and
  \<^verbatim>\<open>rankdata([3,1,2,2])\<close> is \<^verbatim>\<open>[4, 1, 2.5, 2.5]\<close>.
\<close>

theorem rankdata_average_rank:
  fixes a :: "'a::linorder list"
  shows "(\<forall>k < length a. rankdata a ! k = average_rank a (a ! k))
     \<and> length (rankdata a) = length a
     \<and> rankdata [3, 1, 2, 2 :: int] = [4, 1, 5 / 2, 5 / 2]"
proof -
  have "rankdata a ! k = average_rank a (a ! k)" if k: "k < length a" for k
  proof -
    have "k \<in> set (rank_simple a)" using k by (simp add: rank_simple_props)
    then obtain j where j: "j < length a" "rank_simple a ! j = k"
      by (auto simp: in_set_conv_nth rank_simple_props(1))
    have "rankdata a ! (rank_simple a ! j) = group_average (sort a) (sort a ! j)"
      using rankdata_inv [of a] j(1) by (auto simp: rank_inv_def)
    moreover have "sort a ! j = a ! k"
      using j svec_is_sort [of a] by (metis nth_map rank_simple_props(1))
    ultimately show ?thesis
      using j by (simp add: group_average_def average_rank_def tie_positions_def Let_def)
  qed
  moreover have "rankdata [3, 1, 2, 2 :: int] = [4, 1, 5 / 2, 5 / 2]"
    by (simp add: rankdata_def rank_simple_def rank_step_def assign_averank_def upt_rec)
  ultimately show ?thesis using rankdata_inv [of a] by simp
qed

theorem rankdata_average_rank_witness:
  "(2::nat) < length [3, 1, 2, 2 :: int]
   \<and> rankdata [3, 1, 2, 2 :: int] ! 2 = average_rank [3, 1, 2, 2 :: int] ([3, 1, 2, 2] ! 2)
   \<and> tie_positions [3, 1, 2, 2 :: int] 2 = [1, 2]
   \<and> average_rank [3, 1, 2, 2 :: int] 2 = 5 / 2"
proof -
  have tp: "tie_positions [3, 1, 2, 2 :: int] 2 = [1, 2]"
    by (simp add: tie_positions_def upt_rec)
  then have "average_rank [3, 1, 2, 2 :: int] 2 = 5 / 2"
    by (simp add: average_rank_def)
  then show ?thesis
    using rankdata_average_rank [of "[3, 1, 2, 2 :: int]"] tp by simp
qed

lemma sum_list_perm_index:
  fixes arr :: "real list"
  assumes "mset ivec = mset [0..<length arr]"
  shows "sum_list (map (\<lambda>j. arr ! (ivec ! j)) [0..<length ivec]) = sum_list arr"
proof -
  have "map ((!) arr) (map ((!) ivec) [0..<length ivec]) = map ((!) arr) ivec"
    by (simp only: map_nth)
  then have "map (\<lambda>j. arr ! (ivec ! j)) [0..<length ivec] = map ((!) arr) ivec"
    by (simp add: comp_def del: map_nth)
  then have "sum_list (map (\<lambda>j. arr ! (ivec ! j)) [0..<length ivec])
      = sum_mset (mset (map ((!) arr) ivec))"
    by (simp only: sum_mset_sum_list)
  also have "\<dots> = sum_mset (image_mset ((!) arr) (mset ivec))"
    by (simp only: mset_map)
  also have "\<dots> = sum_mset (image_mset ((!) arr) (mset [0..<length arr]))"
    by (simp only: assms)
  also have "\<dots> = sum_mset (mset (map ((!) arr) [0..<length arr]))"
    by (simp only: mset_map)
  also have "\<dots> = sum_list arr"
    by (simp only: map_nth sum_mset_sum_list)
  finally show ?thesis .
qed

lemma sum_succ_upt: "sum_list (map (\<lambda>j. real (j + 1)) [0..<n]) = real n * (real n + 1) / 2"
  by (induction n) (auto simp: field_simps)

text \<open>
  Claim C10.  For every input list of length \<open>n\<close>, \<^verbatim>\<open>rankdata\<close> returns a list of length
  \<open>n\<close> whose entries sum to \<open>n (n + 1) / 2\<close>; so for a non-empty input the mean rank is
  \<open>(n + 1) / 2\<close>, whatever the values are.
\<close>

theorem rankdata_sum:
  fixes a :: "'a::linorder list"
  shows "length (rankdata a) = length a
     \<and> sum_list (rankdata a) = real (length a) * (real (length a) + 1) / 2
     \<and> (a \<noteq> [] \<longrightarrow> sum_list (rankdata a) / real (length (rankdata a)) = (real (length a) + 1) / 2)"
proof -
  have len: "length (rankdata a) = length a" using rankdata_inv [of a] by simp
  have "sum_list (map (\<lambda>j. rankdata a ! (rank_simple a ! j)) [0..<length a])
        = sum_list (map (\<lambda>j. real (j + 1)) [0..<length a])"
    using rankdata_inv [of a] by (simp add: rank_inv_def)
  moreover have "sum_list (map (\<lambda>j. rankdata a ! (rank_simple a ! j)) [0..<length a]) = sum_list (rankdata a)"
    using sum_list_perm_index [of "rank_simple a" "rankdata a"] len rank_simple_props [of a]
    by simp
  ultimately have s: "sum_list (rankdata a) = real (length a) * (real (length a) + 1) / 2"
    using sum_succ_upt [of "length a"] by simp
  show ?thesis using len s by (simp add: field_simps)
qed

theorem rankdata_sum_witness:
  "[3, 1, 2, 2 :: int] \<noteq> []
   \<and> length (rankdata [3, 1, 2, 2 :: int]) = 4
   \<and> sum_list (rankdata [3, 1, 2, 2 :: int]) = 10
   \<and> sum_list (rankdata [3, 1, 2, 2 :: int]) / real (length (rankdata [3, 1, 2, 2 :: int])) = 5 / 2"
  using rankdata_sum [of "[3, 1, 2, 2 :: int]"] by simp

section \<open>Properties of \<^verbatim>\<open>pearson\<close>\<close>


lemma map_index_zip:
  "length A \<le> length B \<Longrightarrow>
   map (\<lambda>i. A ! i * B ! i) [0..<length A] = map (\<lambda>(a, b). a * b) (zip A (B::real list))"
proof (induction A arbitrary: B)
  case Nil
  then show ?case by simp
next
  case (Cons a A)
  then obtain b B' where B: "B = b # B'" by (cases B) auto
  have "[0..<length (a # A)] = 0 # map Suc [0..<length A]"
    by (simp add: upt_conv_Cons map_Suc_upt del: upt_Suc)
  then show ?case using Cons B by (simp add: comp_def del: upt_Suc)
qed

lemma pearson_reports_mismatch:
  "length A \<noteq> length B \<Longrightarrow> \<exists>rest. fst (pearson A B) = Error_pearson_length # rest"
  by (simp add: pearson_def Let_def)

lemma pearson_returns_value:
  assumes "length A < length B" and "2 \<le> length A"
  shows "snd (pearson A B) = Inr (pearson_value A B)"
proof -
  let ?n = "real (length A)"
  have n: "?n \<noteq> 0" "?n - 1 \<noteq> 0" "length A \<noteq> length B" "\<not> length B < length A"
    using assms by auto
  have sq: "(1 / (?n - 1)) * sum_list (map (\<lambda>d. d * d) (map (\<lambda>x. x - m) xs))
            = sum_list (map (\<lambda>x. (x - m) * (x - m)) xs) / (?n - 1)" for m and xs :: "real list"
    by (simp add: comp_def)
  have prod: "sum_list (map (\<lambda>i. A ! i * B ! i) [0..<length A])
              = sum_list (map (\<lambda>(a, b). a * b) (zip A B))"
    using map_index_zip [of A B] assms by simp
  show ?thesis
    unfolding pearson_def pearson_value_def Let_def sq prod
    using n by (simp only: if_True if_False refl simp_thms append_Nil append_Cons split: if_split) auto
qed

text \<open>
  Claim C5, amended.  For every pair of lists of different length, \<^verbatim>\<open>pearson\<close> reports
  the mismatch as an error (it is the first line printed).  When \<open>A\<close> is the shorter
  list and has at least two elements, it does not fail and returns a coefficient computed
  with \<open>n = len(A)\<close>: the products run over the first \<open>len(A)\<close> positions, the mean and
  deviations of \<open>B\<close> over all of \<open>B\<close>.
\<close>

theorem pearson_shorter_first:
  "(length A \<noteq> length B \<longrightarrow>
      (\<exists>rest. fst (pearson A B) = Error_pearson_length # rest))
   \<and> (length A < length B \<and> 2 \<le> length A \<longrightarrow>
      Error_pearson_length \<in> set (fst (pearson A B))
      \<and> snd (pearson A B) = Inr (pearson_value A B))"
proof -
  have "Error_pearson_length \<in> set (fst (pearson A B))" if "length A \<noteq> length B"
    using pearson_reports_mismatch [OF that] by auto
  then show ?thesis
    using pearson_reports_mismatch [of A B] pearson_returns_value [of A B] by auto
qed

theorem pearson_shorter_first_witness:
  "length [1, 2 :: real] \<noteq> length [1, 2, 3 :: real]
   \<and> length [1, 2 :: real] < length [1, 2, 3 :: real] \<and> 2 \<le> length [1, 2 :: real]
   \<and> (\<exists>rest. fst (pearson [1, 2] [1, 2, 3]) = Error_pearson_length # rest)
   \<and> snd (pearson [1, 2] [1, 2, 3]) = Inr (pearson_value [1, 2] [1, 2, 3])
   \<and> length [1, 2, 3 :: real] \<noteq> length [1, 2 :: real]
   \<and> (\<exists>rest. fst (pearson [1, 2, 3] [1, 2]) = Error_pearson_length # rest)"
  using pearson_shorter_first [of "[1, 2]" "[1, 2, 3]"] pearson_shorter_first [of "[1, 2, 3]" "[1, 2]"]
  by simp

text \<open>
  Claim C5 as stated fails in two ways.  When \<open>A\<close> is the longer list, the product
  \<^verbatim>\<open>A[i] * B[i]\<close> runs past the end of \<open>B\<close> after the error message and the
  \<^verbatim>\<open>IndexError\<close> is not caught.  When \<open>A\<close> is the shorter list but has a single element,
  \<^verbatim>\<open>1 / (n - 1)\<close> divides by zero outside the \<^verbatim>\<open>try\<close> block.
\<close>

theorem pearson_mismatch_counterexample:
  "length [1, 2, 3 :: real] \<noteq> length [1, 2 :: real]
   \<and> pearson [1, 2, 3] [1, 2] = ([Error_pearson_length], Inl IndexError)
   \<and> length [5 :: real] < length [1, 2 :: real]
   \<and> pearson [5] [1, 2] = ([Error_pearson_length], Inl ZeroDivisionError)"
  by (simp add: pearson_def Let_def)

section \<open>Properties of \<^verbatim>\<open>crest_routine\<close> and \<^verbatim>\<open>new_folders\<close>\<close>


lemma index_of_Some: "index_of xs x = Some i \<Longrightarrow> i < length xs \<and> xs ! i = x"
  by (induction xs arbitrary: i) (auto split: if_splits)

lemma index_of_mem: "x \<in> set xs \<Longrightarrow> \<exists>i. index_of xs x = Some i"
  by (induction xs) auto

lemma mset_pop_at: "i < length xs \<Longrightarrow> mset (pop_at i xs) + {#xs ! i#} = mset xs"
proof -
  assume i: "i < length xs"
  have "mset xs = mset (take i xs @ xs ! i # drop (Suc i) xs)"
    using id_take_nth_drop [OF i] by simp
  also have "\<dots> = mset (take i xs) + mset (drop (Suc i) xs) + {#xs ! i#}" by simp
  finally show ?thesis by (simp add: pop_at_def)
qed

lemma remove_sorted_out_moves:
  "remove_sorted_out keep snapshot (h, source, store_confs, out) = ((h', source', store', out'), e)
   \<Longrightarrow> mset source' + mset store' = mset source + mset store_confs
       \<and> (\<forall>r. conf_id (h' r) = conf_id (h r))"
proof (induction snapshot arbitrary: h source store_confs out)
  case Nil
  then show ?case by simp
next
  case (Cons conf snapshot)
  show ?case
  proof (cases "''CONF'' @ str_int (conf_id (h conf)) \<notin> set keep")
    case False
    then show ?thesis using Cons by simp
  next
    case True
    let ?h = "h(conf := (h conf)\<lparr>opt_info := ''calculated'', cregen_sort := ''removed''\<rparr>)"
    have hid: "conf_id (?h r) = conf_id (h r)" for r by simp
    show ?thesis
    proof (cases "index_of source conf")
      case None
      then show ?thesis using Cons.prems True by (auto simp: Let_def)
    next
      case (Some i)
      then have i: "i < length source" using index_of_Some by fastforce
      have run: "remove_sorted_out keep snapshot
            (?h, pop_at i source, store_confs @ [source ! i],
             out @ [Removing_conformer (conf_id (h conf))]) = ((h', source', store', out'), e)"
        using Cons.prems True Some by (simp add: Let_def)
      from Cons.IH [OF run] have
        m: "mset source' + mset store' = mset (pop_at i source) + mset (store_confs @ [source ! i])"
        and hh: "\<forall>r. conf_id (h' r) = conf_id (?h r)" by blast+
      have "mset (pop_at i source) + mset (store_confs @ [source ! i])
          = (mset (pop_at i source) + {#source ! i#}) + mset store_confs" by simp
      also have "\<dots> = mset source + mset store_confs" by (simp only: mset_pop_at [OF i])
      finally have "mset source' + mset store' = mset source + mset store_confs"
        using m by simp
      moreover have "\<forall>r. conf_id (h' r) = conf_id (h r)"
      proof
        fix r show "conf_id (h' r) = conf_id (h r)" using hh hid [of r] by (simp only:)
      qed
      ultimately show ?thesis by blast
    qed
  qed
qed

lemma removal_step_moves:
  assumes "removal_step tags h conformers prev_calculated store_confs out
            = (h', conformers', prev', store', out')"
  shows "mset conformers' + mset prev' + mset store'
          = mset conformers + mset prev_calculated + mset store_confs
       \<and> (\<forall>r. conf_id (h' r) = conf_id (h r))
       \<and> (prev_calculated = [] \<longrightarrow> prev' = [])"
proof (cases tags)
  case None
  then show ?thesis using assms by (simp add: removal_step_def)
next
  case (Some store)
  show ?thesis
  proof (cases "parse_keep store []")
    case (Inl e)
    then show ?thesis using assms Some by (simp add: removal_step_def)
  next
    case (Inr keep)
    obtain h1 c1 s1 o1 e1 where
      r1: "remove_sorted_out keep conformers (h, conformers, store_confs, out) = ((h1, c1, s1, o1), e1)"
      by (metis prod_cases4 surj_pair)
    note m1 = remove_sorted_out_moves [OF r1]
    show ?thesis
    proof (cases e1)
      case (Some e)
      then show ?thesis using assms \<open>tags = Some store\<close> Inr r1 m1
        by (auto simp: removal_step_def)
    next
      case None
      obtain h2 p2 s2 o2 e2 where
        r2: "remove_sorted_out keep prev_calculated (h1, prev_calculated, s1, o1) = ((h2, p2, s2, o2), e2)"
        by (metis prod_cases4 surj_pair)
      note m2 = remove_sorted_out_moves [OF r2]
      have res: "h' = h2 \<and> conformers' = c1 \<and> prev' = p2 \<and> store' = s2"
        using assms \<open>tags = Some store\<close> Inr r1 None r2
        by (cases e2) (auto simp: removal_step_def)
      have "prev_calculated = [] \<longrightarrow> p2 = []" using r2 by auto
      moreover have "mset c1 + mset p2 + mset s2
          = mset conformers + mset prev_calculated + mset store_confs"
      proof -
        have "mset c1 + mset p2 + mset s2 = mset c1 + (mset p2 + mset s2)" by (simp add: ac_simps)
        also have "\<dots> = mset c1 + (mset prev_calculated + mset s1)" using m2 by simp
        also have "\<dots> = (mset c1 + mset s1) + mset prev_calculated" by (simp add: ac_simps)
        also have "\<dots> = (mset conformers + mset store_confs) + mset prev_calculated" using m1 by simp
        finally show ?thesis by (simp add: ac_simps)
      qed
      ultimately show ?thesis using res m1 m2 by simp
    qed
  qed
qed

lemma crest_routine_moves:
  assumes "crest_routine env h conformers store_confs prev_calculated = Inr r"
  shows "mset (cr_conformers r) + mset (cr_prev_calculated r) + mset (cr_store_confs r)
          = mset conformers + mset prev_calculated + mset store_confs
       \<and> (\<forall>x. conf_id (cr_heap r x) = conf_id (h x))
       \<and> (prev_calculated = [] \<longrightarrow> cr_prev_calculated r = [])"
proof (cases "crestcheck env")
  case False
  then show ?thesis using assms
    by (auto simp: crest_routine_def Let_def split: if_splits sum.splits)
next
  case True
  from assms True obtain out2 h' c' p' s' out3 where
    rs: "removal_step (enso_tags env) h conformers prev_calculated store_confs out2
          = (h', c', p', s', out3)"
    and r: "cr_heap r = h'" "cr_conformers r = c'" "cr_prev_calculated r = p'" "cr_store_confs r = s'"
    by (auto simp: crest_routine_def Let_def split: if_splits sum.splits prod.splits)
  from removal_step_moves [OF rs] r show ?thesis by simp
qed


lemma new_folders_loop_moves:
  "new_folders_loop mkdir_p h i s = Inr s' \<Longrightarrow>
   mset (fs_conflist s') + mset (fs_store_confs s')
     = mset (fs_conflist s) + mset (fs_store_confs s)"
proof (induction mkdir_p h i s rule: new_folders_loop.induct)
  case (1 mkdir_p h i s)
  show ?case
  proof (cases "i < length (fs_conflist s)")
    case False
    then show ?thesis using "1.prems" by (simp add: new_folders_loop.simps)
  next
    case True
    let ?conf = "fs_conflist s ! i"
    show ?thesis
    proof (cases "mkdir_p (conf_id (h ?conf))")
      case Mkdir_ok
      then have "new_folders_loop mkdir_p h (i + 1) s = Inr s'"
        using "1.prems" True by (subst (asm) new_folders_loop.simps) simp
      then show ?thesis using "1.IH"(1) [OF True refl Mkdir_ok] by simp
    next
      case Mkdir_raised_dir_exists
      let ?s = "s\<lparr>fs_printed := fs_printed s @ [Printed_exception OSError]\<rparr>"
      have "new_folders_loop mkdir_p h (i + 1) ?s = Inr s'"
        using "1.prems" True Mkdir_raised_dir_exists
        by (subst (asm) new_folders_loop.simps) simp
      then show ?thesis using "1.IH"(2) [OF True refl Mkdir_raised_dir_exists] by simp
    next
      case Mkdir_raised_no_dir
      obtain j where j: "index_of (fs_conflist s) ?conf = Some j"
        using index_of_mem [of ?conf "fs_conflist s"] True by auto
      then have jl: "j < length (fs_conflist s)" using index_of_Some by fastforce
      let ?s = "s\<lparr>fs_conflist := pop_at j (fs_conflist s),
                 fs_save_errors := fs_save_errors s @ [Was_removed_io_failed (conf_id (h ?conf))],
                 fs_store_confs := fs_store_confs s @ [fs_conflist s ! j],
                 fs_printed := fs_printed s @
                   [Printed_exception OSError, Error_folder (conf_id (h ?conf)),
                    Removed_io_failed (conf_id (h ?conf))]\<rparr>"
      have run: "new_folders_loop mkdir_p h (i + 1) ?s = Inr s'"
        using "1.prems" True Mkdir_raised_no_dir j
        by (subst (asm) new_folders_loop.simps) (simp add: Let_def)
      have "mset (fs_conflist s') + mset (fs_store_confs s')
          = mset (fs_conflist ?s) + mset (fs_store_confs ?s)"
        using "1.IH"(3) [OF True refl Mkdir_raised_no_dir j run] .
      also have "\<dots> = (mset (pop_at j (fs_conflist s)) + {#fs_conflist s ! j#})
                          + mset (fs_store_confs s)" by simp
      also have "\<dots> = mset (fs_conflist s) + mset (fs_store_confs s)"
        by (simp only: mset_pop_at [OF jl])
      finally show ?thesis .
    qed
  qed
qed

lemma new_folders_loop_returns: "\<exists>s'. new_folders_loop mkdir_p h i s = Inr s'"
proof (induction mkdir_p h i s rule: new_folders_loop.induct)
  case (1 mkdir_p h i s)
  show ?case
  proof (cases "i < length (fs_conflist s)")
    case False
    then show ?thesis by (simp add: new_folders_loop.simps)
  next
    case True
    let ?conf = "fs_conflist s ! i"
    show ?thesis
    proof (cases "mkdir_p (conf_id (h ?conf))")
      case Mkdir_ok
      then show ?thesis using "1.IH"(1) [OF True refl Mkdir_ok] True
        by (subst new_folders_loop.simps) simp
    next
      case Mkdir_raised_dir_exists
      then show ?thesis using "1.IH"(2) [OF True refl Mkdir_raised_dir_exists] True
        by (subst new_folders_loop.simps) simp
    next
      case Mkdir_raised_no_dir
      obtain j where j: "index_of (fs_conflist s) ?conf = Some j"
        using index_of_mem [of ?conf "fs_conflist s"] True by auto
      show ?thesis using "1.IH"(3) [OF True refl Mkdir_raised_no_dir j] True Mkdir_raised_no_dir j
        by (subst new_folders_loop.simps) (simp add: Let_def)
    qed
  qed
qed

lemma new_folders_moves:
  assumes "new_folders mkdir_p h conflist save_errors store_confs silent = Inr f"
  shows "mset (fs_conflist f) + mset (fs_store_confs f) = mset conflist + mset store_confs"
proof -
  from assms obtain s where
    s: "new_folders_loop mkdir_p h 0
          \<lparr>fs_conflist = conflist, fs_save_errors = save_errors,
           fs_store_confs = store_confs, fs_printed = []\<rparr> = Inr s"
    and f: "fs_conflist f = fs_conflist s" "fs_store_confs f = fs_store_confs s"
    by (auto simp: new_folders_def split: sum.splits if_splits)
  from new_folders_loop_moves [OF s] f show ?thesis by simp
qed

lemma apply_op_moves:
  "mset (ps_conformers (apply_op op s)) + mset (ps_prev_calculated (apply_op op s))
      + mset (ps_store_confs (apply_op op s))
    = mset (ps_conformers s) + mset (ps_prev_calculated s) + mset (ps_store_confs s)
   \<and> (\<forall>r. conf_id (ps_heap (apply_op op s) r) = conf_id (ps_heap s r))
   \<and> (ps_prev_calculated s = [] \<longrightarrow> ps_prev_calculated (apply_op op s) = [])"
proof (cases op)
  case (Op_crest_routine env)
  show ?thesis
  proof (cases "crest_routine env (ps_heap s) (ps_conformers s) (ps_store_confs s) (ps_prev_calculated s)")
    case (Inl e)
    then have "apply_op op s = s" using Op_crest_routine by simp
    then show ?thesis by simp
  next
    case (Inr r)
    then have "apply_op op s = s\<lparr>ps_heap := cr_heap r, ps_conformers := cr_conformers r,
            ps_prev_calculated := cr_prev_calculated r, ps_store_confs := cr_store_confs r\<rparr>"
      using Op_crest_routine by simp
    with crest_routine_moves [OF Inr] show ?thesis by simp
  qed
next
  case (Op_new_folders mkdir_p silent)
  show ?thesis
  proof (cases "new_folders mkdir_p (ps_heap s) (ps_conformers s) (ps_save_errors s) (ps_store_confs s) silent")
    case (Inl e)
    then have "apply_op op s = s" using Op_new_folders by simp
    then show ?thesis by simp
  next
    case (Inr f)
    then have "apply_op op s = s\<lparr>ps_conformers := fs_conflist f, ps_save_errors := fs_save_errors f,
            ps_store_confs := fs_store_confs f\<rparr>"
      using Op_new_folders by simp
    with new_folders_moves [OF Inr] show ?thesis by simp
  qed
qed

lemma run_ops_moves:
  "mset (ps_conformers (run_ops ops s)) + mset (ps_prev_calculated (run_ops ops s))
      + mset (ps_store_confs (run_ops ops s))
    = mset (ps_conformers s) + mset (ps_prev_calculated s) + mset (ps_store_confs s)
   \<and> (\<forall>r. conf_id (ps_heap (run_ops ops s) r) = conf_id (ps_heap s r))
   \<and> (ps_prev_calculated s = [] \<longrightarrow> ps_prev_calculated (run_ops ops s) = [])"
proof (induction ops arbitrary: s)
  case Nil
  then show ?case by (simp add: run_ops_def)
next
  case (Cons op ops)
  have r: "run_ops (op # ops) s = run_ops ops (apply_op op s)" by (simp add: run_ops_def)
  show ?case unfolding r using Cons [of "apply_op op s"] apply_op_moves [of op s] by simp
qed

lemma mset_all_ids:
  "mset (all_ids s) = image_mset (\<lambda>r. conf_id (ps_heap s r))
      (mset (ps_conformers s) + mset (ps_prev_calculated s) + mset (ps_store_confs s))"
  by (simp add: all_ids_def active_ids_def prev_ids_def stored_ids_def ids_def)

lemma run_ops_all_ids: "mset (all_ids (run_ops ops s)) = mset (all_ids s)"
proof -
  have "(\<lambda>r. conf_id (ps_heap (run_ops ops s) r)) = (\<lambda>r. conf_id (ps_heap s r))"
    using run_ops_moves [of ops s] by auto
  then show ?thesis using run_ops_moves [of ops s] by (simp only: mset_all_ids)
qed



lemma write_blocks_result:
  "write_blocks t2x_of cs out = Inr out' \<Longrightarrow>
   out' = out @ concat (map (trajectory_block t2x_of) cs)
   \<and> (\<forall>c \<in> set cs. \<exists>res. t2x_of (conf_id c) = Inr res)"
proof (induction cs arbitrary: out)
  case Nil
  then show ?case by simp
next
  case (Cons c cs)
  then obtain xyz n where t: "t2x_of (conf_id c) = Inr (xyz, n)"
    by (auto split: sum.splits)
  then have "write_blocks t2x_of cs
      (out @ [Atom_count_line n, Energy_line (opt_energy c) (''CONF'' @ str_int (conf_id c))]
           @ map Coordinate_line xyz) = Inr out'"
    using Cons.prems by simp
  from Cons.IH [OF this] show ?case using t by (simp add: trajectory_block_def)
qed

lemma write_blocks_succeeds:
  "\<forall>c \<in> set cs. \<exists>res. t2x_of (conf_id c) = Inr res \<Longrightarrow>
   \<exists>out'. write_blocks t2x_of cs out = Inr out'"
proof (induction cs arbitrary: out)
  case Nil
  then show ?case by simp
next
  case (Cons c cs)
  then obtain xyz n where t: "t2x_of (conf_id c) = Inr (xyz, n)" by fastforce
  show ?case using Cons.IH Cons.prems t by simp
qed

lemma count_atom_lines_block:
  "t2x_of (conf_id c) = Inr res \<Longrightarrow>
   length (filter is_atom_count_line (trajectory_block t2x_of c)) = 1"
proof -
  assume a: "t2x_of (conf_id c) = Inr res"
  obtain xyz n where res: "res = (xyz, n)" by (cases res)
  have "filter is_atom_count_line (map Coordinate_line xyz) = []"
    by (induction xyz) auto
  then show ?thesis using a res by (simp add: trajectory_block_def)
qed

lemma count_atom_lines_pass:
  "\<forall>c \<in> set cs. \<exists>res. t2x_of (conf_id c) = Inr res \<Longrightarrow>
   length (filter is_atom_count_line (concat (map (trajectory_block t2x_of) cs))) = length cs"
proof (induction cs)
  case Nil
  then show ?case by simp
next
  case (Cons c cs)
  then obtain res where "t2x_of (conf_id c) = Inr res" by auto
  then have "length (filter is_atom_count_line (trajectory_block t2x_of c)) = 1"
    by (rule count_atom_lines_block [of t2x_of c])
  then show ?case using Cons by simp
qed

lemma crest_routine_xyz:
  assumes "crest_routine env h conformers store_confs prev_calculated = Inr r"
  shows "cr_xyz_file r
           = concat (map (trajectory_block (t2x env)) (merged_candidates h conformers prev_calculated))
           @ concat (map (trajectory_block (t2x env)) (merged_candidates h conformers prev_calculated))
       \<and> (\<forall>c \<in> set (merged_candidates h conformers prev_calculated).
             \<exists>res. t2x env (conf_id c) = Inr res)"
proof -
  let ?cs = "merged_candidates h conformers prev_calculated"
  from assms obtain pass1 xyz where
    w1: "write_blocks (t2x env) ?cs [] = Inr pass1"
    and w2: "write_blocks (t2x env) ?cs pass1 = Inr xyz"
    and x: "cr_xyz_file r = xyz"
    by (auto simp: crest_routine_def merged_candidates_def Let_def
        split: if_splits sum.splits prod.splits)
  from write_blocks_result [OF w1] write_blocks_result [OF w2] x show ?thesis by simp
qed

lemma crest_routine_returns:
  assumes "io_succeeds env h (conformers @ prev_calculated)"
  shows "\<exists>r. crest_routine env h conformers store_confs prev_calculated = Inr r"
proof -
  let ?cs = "merged_candidates h conformers prev_calculated"
  have "\<exists>res. t2x env (conf_id c) = Inr res" if "c \<in> set ?cs" for c
  proof -
    from that obtain r where "r \<in> set (conformers @ prev_calculated)" "c = h r"
      by (auto simp: merged_candidates_def)
    then have "case t2x env (conf_id c) of Inl e \<Rightarrow> False | Inr res \<Rightarrow> True"
      using assms by (simp add: io_succeeds_def list_all_iff)
    then show ?thesis by (cases "t2x env (conf_id c)") auto
  qed
  then have "\<forall>c \<in> set ?cs. \<exists>res. t2x env (conf_id c) = Inr res" by blast
  then obtain pass1 xyz where
    w1: "write_blocks (t2x env) ?cs [] = Inr pass1"
    and w2: "write_blocks (t2x env) ?cs pass1 = Inr xyz"
    using write_blocks_succeeds by metis
  show ?thesis
    using assms w1 w2
    by (auto simp: crest_routine_def io_succeeds_def Let_def merged_candidates_def
        split: prod.splits)
qed

text \<open>
  Claim C6.  \<^verbatim>\<open>crest_routine\<close> writes the block of each of the \<open>N\<close> merged candidates
  (atom-count line, energy line tagged \<open>CONF<id>\<close>, coordinate lines) twice into
  \<^verbatim>\<open>conformers.xyz\<close>: the file is two identical passes over the candidates in ascending
  order of energy, each pass holding one block per candidate, \<open>2N\<close> blocks in all.  The
  call returns whenever the file operations and the external program do not raise.
\<close>

theorem trajectory_written_twice:
  "(\<forall>r. crest_routine env h conformers store_confs prev_calculated = Inr r \<longrightarrow>
      cr_xyz_file r
        = concat (map (trajectory_block (t2x env)) (merged_candidates h conformers prev_calculated))
        @ concat (map (trajectory_block (t2x env)) (merged_candidates h conformers prev_calculated))
      \<and> length (filter is_atom_count_line (cr_xyz_file r))
          = 2 * (length conformers + length prev_calculated))
   \<and> mset (merged_candidates h conformers prev_calculated)
        = mset (map h conformers) + mset (map h prev_calculated)
   \<and> (io_succeeds env h (conformers @ prev_calculated) \<longrightarrow>
        (\<exists>r. crest_routine env h conformers store_confs prev_calculated = Inr r))"
proof -
  let ?cs = "merged_candidates h conformers prev_calculated"
  have len: "length ?cs = length conformers + length prev_calculated"
    by (simp add: merged_candidates_def)
  have a: "cr_xyz_file r = concat (map (trajectory_block (t2x env)) ?cs)
              @ concat (map (trajectory_block (t2x env)) ?cs)
        \<and> length (filter is_atom_count_line (cr_xyz_file r))
          = 2 * (length conformers + length prev_calculated)"
    if run: "crest_routine env h conformers store_confs prev_calculated = Inr r" for r
  proof -
    note x = crest_routine_xyz [OF run]
    from x have ok: "\<forall>c \<in> set ?cs. \<exists>res. t2x env (conf_id c) = Inr res" by blast
    show ?thesis using x count_atom_lines_pass [OF ok] len by simp
  qed
  have b: "mset ?cs = mset (map h conformers) + mset (map h prev_calculated)"
    by (simp add: merged_candidates_def)
  show ?thesis using a b crest_routine_returns [of env h conformers prev_calculated store_confs]
    by blast
qed

text \<open>
  Claim C7.  If \<^verbatim>\<open>enso.tags\<close> is missing or unreadable, \<^verbatim>\<open>crest_routine\<close> reports the
  error and moves no conformer: the active list, the previously calculated list, the
  stored list and the conformer objects are as before, whether \<^verbatim>\<open>crestcheck\<close> is set or
  not.  The call returns whenever the other file operations and the external program
  do not raise.
\<close>

theorem missing_tags_no_removal:
  assumes "enso_tags env = None"
  shows "(\<forall>r. crest_routine env h conformers store_confs prev_calculated = Inr r \<longrightarrow>
            cr_conformers r = conformers \<and> cr_prev_calculated r = prev_calculated
            \<and> cr_store_confs r = store_confs \<and> cr_heap r = h
            \<and> Error_no_tags_file \<in> set (cr_printed r))
       \<and> (io_succeeds env h (conformers @ prev_calculated) \<longrightarrow>
            (\<exists>r. crest_routine env h conformers store_confs prev_calculated = Inr r))"
proof -
  have "cr_conformers r = conformers \<and> cr_prev_calculated r = prev_calculated
            \<and> cr_store_confs r = store_confs \<and> cr_heap r = h
            \<and> Error_no_tags_file \<in> set (cr_printed r)"
    if "crest_routine env h conformers store_confs prev_calculated = Inr r" for r
    using that assms
    by (auto simp: crest_routine_def removal_step_def Let_def split: if_splits sum.splits)
  then show ?thesis
    using crest_routine_returns [of env h conformers prev_calculated store_confs] by blast
qed



lemma str_int_1: "str_int 1 = ''1''" and str_int_2: "str_int 2 = ''2''"
  by (simp_all add: str_int_def str_nat.simps digit_char_def)

lemma split_tag1: "py_split ''1 !CONF1'' = [''1'', ''!CONF1'']"
  by (simp add: py_split_def is_space_def)

lemma split_tag2: "py_split ''2 !CONF2'' = [''2'', ''!CONF2'']"
  by (simp add: py_split_def is_space_def)

lemma crest_restart_removed:
  "run_ops [Op_crest_routine (quiet_env True (Some [''1 !CONF1'']))] restart_state
    = restart_state\<lparr>ps_heap := numbered_heap(1 := (numbered_heap 1)\<lparr>opt_info := ''calculated'', cregen_sort := ''removed''\<rparr>),
        ps_conformers := [0], ps_prev_calculated := [], ps_store_confs := [1]\<rparr>"
  by (simp add: run_ops_def restart_state_def crest_routine_def quiet_env_def Let_def
      removal_step_def split_tag1 numbered_heap_def conf_of_def str_int_1 str_int_2 pop_at_def
      split: sum.splits)


lemma crest_restart_kept:
  "run_ops [Op_crest_routine (quiet_env True (Some [''1 !CONF1'', ''2 !CONF2'']))] restart_state
    = restart_state"
  by (simp add: run_ops_def restart_state_def crest_routine_def quiet_env_def Let_def
      removal_step_def split_tag1 split_tag2 numbered_heap_def conf_of_def str_int_1 str_int_2
      pop_at_def split: sum.splits)

text \<open>
  Claim C1 as stated speaks of two lists.  \<^verbatim>\<open>crest_routine\<close> carries a third list,
  \<^verbatim>\<open>prev_calculated\<close>: a conformer it removes from there enters the stored list, and one
  it keeps there is in neither the active nor the stored list.  So the ids of the active
  and the stored list together are not a fixed set: in the restarted run they are \<open>{1}\<close>
  before the call, \<open>{1, 2}\<close> after a call that sorts out conformer 2, and still \<open>{1}\<close>
  after a call that keeps both, while the ids handed to the call are \<open>{1, 2}\<close>.
\<close>

theorem active_stored_union_counterexample:
  "set (active_ids restart_state) \<union> set (stored_ids restart_state) = {1}
   \<and> set (all_ids restart_state) = {1, 2}
   \<and> set (active_ids (run_ops [Op_crest_routine (quiet_env True (Some [''1 !CONF1'']))] restart_state))
       \<union> set (stored_ids (run_ops [Op_crest_routine (quiet_env True (Some [''1 !CONF1'']))] restart_state))
     = {1, 2}
   \<and> set (active_ids (run_ops [Op_crest_routine (quiet_env True (Some [''1 !CONF1'', ''2 !CONF2'']))] restart_state))
       \<union> set (stored_ids (run_ops [Op_crest_routine (quiet_env True (Some [''1 !CONF1'', ''2 !CONF2'']))] restart_state))
     = {1}"
  unfolding crest_restart_removed crest_restart_kept
  by (auto simp: restart_state_def active_ids_def stored_ids_def prev_ids_def all_ids_def ids_def
      numbered_heap_def conf_of_def)

text \<open>
  Claim C1, amended.  After any sequence of \<^verbatim>\<open>crest_routine\<close> and \<^verbatim>\<open>new_folders\<close> calls,
  the ids of the active list, the previously calculated list and the stored list,
  counted with multiplicity, are exactly the ids submitted: every transfer moves a
  conformer from one list to another without duplicating or losing an id.  If the
  submitted ids are distinct, the three lists stay pairwise disjoint.  If the previously
  calculated list is empty it stays empty, and the ids of the active and the stored list
  together are exactly the ids submitted.
\<close>

theorem candidate_lists_conserved:
  "mset (all_ids (run_ops ops s)) = mset (all_ids s)
   \<and> set (active_ids (run_ops ops s)) \<union> set (prev_ids (run_ops ops s))
        \<union> set (stored_ids (run_ops ops s))
       = set (active_ids s) \<union> set (prev_ids s) \<union> set (stored_ids s)
   \<and> (distinct (all_ids s) \<longrightarrow>
        distinct (all_ids (run_ops ops s))
        \<and> set (active_ids (run_ops ops s)) \<inter> set (stored_ids (run_ops ops s)) = {}
        \<and> set (active_ids (run_ops ops s)) \<inter> set (prev_ids (run_ops ops s)) = {}
        \<and> set (prev_ids (run_ops ops s)) \<inter> set (stored_ids (run_ops ops s)) = {})
   \<and> (ps_prev_calculated s = [] \<longrightarrow>
        ps_prev_calculated (run_ops ops s) = []
        \<and> set (active_ids (run_ops ops s)) \<union> set (stored_ids (run_ops ops s))
           = set (active_ids s) \<union> set (stored_ids s))"
proof -
  let ?s = "run_ops ops s"
  have m: "mset (all_ids ?s) = mset (all_ids s)" by (rule run_ops_all_ids)
  then have st: "set (all_ids ?s) = set (all_ids s)" by (rule mset_eq_setD)
  have u: "set (all_ids t) = set (active_ids t) \<union> set (prev_ids t) \<union> set (stored_ids t)" for t
    by (auto simp: all_ids_def)
  have d: "distinct (all_ids ?s)" if "distinct (all_ids s)"
    using that mset_eq_imp_distinct_iff [OF m] by simp
  have dj: "set (active_ids t) \<inter> set (stored_ids t) = {}
        \<and> set (active_ids t) \<inter> set (prev_ids t) = {}
        \<and> set (prev_ids t) \<inter> set (stored_ids t) = {}" if "distinct (all_ids t)" for t
    using that by (auto simp: all_ids_def)
  have p: "ps_prev_calculated ?s = []" if "ps_prev_calculated s = []"
    using that run_ops_moves [of ops s] by simp
  have pe: "set (active_ids ?s) \<union> set (stored_ids ?s) = set (active_ids s) \<union> set (stored_ids s)"
    if e: "ps_prev_calculated s = []"
  proof -
    have "prev_ids ?s = []" "prev_ids s = []" using p [OF e] e by (simp_all add: prev_ids_def ids_def)
    then show ?thesis using st u [of ?s] u [of s] by simp
  qed
  show ?thesis using m st u [of ?s] u [of s] d dj [of ?s] p pe by simp
qed

theorem candidate_lists_conserved_witness:
  "distinct (all_ids restart_state)
   \<and> mset (all_ids (run_ops [Op_new_folders (\<lambda>i. Mkdir_raised_no_dir) False,
          Op_crest_routine (quiet_env True (Some [''1 !CONF1'']))] restart_state)) = {#1, 2#}
   \<and> distinct (all_ids (run_ops [Op_new_folders (\<lambda>i. Mkdir_raised_no_dir) False,
          Op_crest_routine (quiet_env True (Some [''1 !CONF1'']))] restart_state))
   \<and> ps_prev_calculated (restart_state\<lparr>ps_prev_calculated := []\<rparr>) = []
   \<and> ps_prev_calculated (run_ops [Op_new_folders (\<lambda>i. Mkdir_raised_no_dir) False]
          (restart_state\<lparr>ps_prev_calculated := []\<rparr>)) = []
   \<and> set (active_ids (run_ops [Op_new_folders (\<lambda>i. Mkdir_raised_no_dir) False]
          (restart_state\<lparr>ps_prev_calculated := []\<rparr>)))
       \<union> set (stored_ids (run_ops [Op_new_folders (\<lambda>i. Mkdir_raised_no_dir) False]
          (restart_state\<lparr>ps_prev_calculated := []\<rparr>))) = {1}"
proof -
  have ids0: "all_ids restart_state = [1, 2]"
    by (simp add: restart_state_def active_ids_def stored_ids_def prev_ids_def all_ids_def ids_def
      numbered_heap_def conf_of_def)
  have ids1: "active_ids (restart_state\<lparr>ps_prev_calculated := []\<rparr>) = [1]"
    "stored_ids (restart_state\<lparr>ps_prev_calculated := []\<rparr>) = []"
    by (simp_all add: restart_state_def active_ids_def stored_ids_def ids_def
      numbered_heap_def conf_of_def)
  have d: "distinct (all_ids restart_state)" by (simp add: ids0)
  have e: "ps_prev_calculated (restart_state\<lparr>ps_prev_calculated := []\<rparr>) = []" by simp
  show ?thesis
    using candidate_lists_conserved [of "[Op_new_folders (\<lambda>i. Mkdir_raised_no_dir) False,
          Op_crest_routine (quiet_env True (Some [''1 !CONF1'']))]" restart_state]
      candidate_lists_conserved [of "[Op_new_folders (\<lambda>i. Mkdir_raised_no_dir) False]"
          "restart_state\<lparr>ps_prev_calculated := []\<rparr>"]
      d e
    by (simp add: ids0 ids1)
qed

theorem trajectory_written_twice_witness:
  "io_succeeds (quiet_env False None) numbered_heap ([0] @ [1])
   \<and> (\<exists>r. crest_routine (quiet_env False None) numbered_heap [0] [] [1] = Inr r
        \<and> cr_xyz_file r =
            [Atom_count_line 1, Energy_line (- 1) ''CONF2'', Coordinate_line ''H 0 0 0'',
             Atom_count_line 1, Energy_line 0 ''CONF1'', Coordinate_line ''H 0 0 0'',
             Atom_count_line 1, Energy_line (- 1) ''CONF2'', Coordinate_line ''H 0 0 0'',
             Atom_count_line 1, Energy_line 0 ''CONF1'', Coordinate_line ''H 0 0 0'']
        \<and> length (filter is_atom_count_line (cr_xyz_file r)) = 4)"
proof -
  have io: "io_succeeds (quiet_env False None) numbered_heap ([0] @ [1])"
    by (simp add: io_succeeds_def quiet_env_def)
  have mc: "merged_candidates numbered_heap [0] [1] = [conf_of 2 (- 1), conf_of 1 0]"
    by (simp add: merged_candidates_def numbered_heap_def conf_of_def)
  have tb: "concat (map (trajectory_block (t2x (quiet_env False None))) [conf_of 2 (- 1), conf_of 1 0])
      = [Atom_count_line 1, Energy_line (- 1) ''CONF2'', Coordinate_line ''H 0 0 0'',
         Atom_count_line 1, Energy_line 0 ''CONF1'', Coordinate_line ''H 0 0 0'']"
    by (simp add: trajectory_block_def quiet_env_def conf_of_def str_int_1 str_int_2)
  show ?thesis
    using trajectory_written_twice [of "quiet_env False None" numbered_heap "[0]" "[]" "[1]"] io
    unfolding mc tb by auto
qed

theorem missing_tags_no_removal_witness:
  "enso_tags (quiet_env True None) = None
   \<and> io_succeeds (quiet_env True None) numbered_heap ([0, 1] @ [2])
   \<and> (\<exists>r. crest_routine (quiet_env True None) numbered_heap [0, 1] [] [2] = Inr r
        \<and> cr_conformers r = [0, 1] \<and> cr_prev_calculated r = [2] \<and> cr_store_confs r = []
        \<and> Error_no_tags_file \<in> set (cr_printed r))"
proof -
  have t: "enso_tags (quiet_env True None) = None" by (simp add: quiet_env_def)
  have io: "io_succeeds (quiet_env True None) numbered_heap ([0, 1] @ [2])"
    by (simp add: io_succeeds_def quiet_env_def)
  show ?thesis
    using missing_tags_no_removal [OF t, of numbered_heap "[0, 1]" "[]" "[2]"] t io by blast
qed

section \<open>Properties of \<^verbatim>\<open>check_tasks\<close>\<close>

lemma count_failures_filter:
  "count_failures results c = c + length (filter (\<lambda>item. \<not> success item) results)"
  by (induction results arbitrary: c) auto

lemma count_failures_countFailed: "count_failures results 0 = countFailed results"
  by (simp add: count_failures_filter countFailed_def)

text \<open>
  Claim C9.  \<^verbatim>\<open>check_tasks\<close> computes the failure rate as failed results over all
  results.  With no results it terminates the process with exit status 1.  With a
  failure rate at or above the threshold it terminates the process (status 1) when the
  hard-stop flag is set and prints exactly one warning and returns when the flag is not
  set.  Below the threshold it prints nothing and returns.  The default threshold is
  0.25.
\<close>

theorem check_tasks_triage:
  "(countTotal results = 0 \<longrightarrow>
      check_tasks results check thresh = ([Error_too_many_failed], Exited 1))
   \<and> (countTotal results \<noteq> 0 \<and> failRate results \<ge> thresh \<and> check \<longrightarrow>
      check_tasks results check thresh =
        ([Error_percent_failed (failRate results * 100)], Exited 1))
   \<and> (countTotal results \<noteq> 0 \<and> failRate results \<ge> thresh \<and> \<not> check \<longrightarrow>
      check_tasks results check thresh =
        ([Warning_percent_failed (failRate results * 100)], Returned))
   \<and> (countTotal results \<noteq> 0 \<and> failRate results < thresh \<longrightarrow>
      check_tasks results check thresh = ([], Returned))
   \<and> check_tasks_default_thresh results check = check_tasks results check (1 / 4)"
  by (simp add: check_tasks_def check_tasks_default_thresh_def failRate_def countTotal_def
      count_failures_countFailed Let_def)

theorem check_tasks_triage_witness:
  "countTotal ([] :: task_result list) = 0
   \<and> check_tasks [] True (1 / 4) = ([Error_too_many_failed], Exited 1)
   \<and> countTotal [\<lparr>success = False\<rparr>, \<lparr>success = False\<rparr>, \<lparr>success = True\<rparr>,
        \<lparr>success = True\<rparr>, \<lparr>success = True\<rparr>] \<noteq> 0
   \<and> failRate [\<lparr>success = False\<rparr>, \<lparr>success = False\<rparr>, \<lparr>success = True\<rparr>,
        \<lparr>success = True\<rparr>, \<lparr>success = True\<rparr>] = 2 / 5
   \<and> check_tasks [\<lparr>success = False\<rparr>, \<lparr>success = False\<rparr>, \<lparr>success = True\<rparr>,
        \<lparr>success = True\<rparr>, \<lparr>success = True\<rparr>] True (1 / 4)
       = ([Error_percent_failed 40], Exited 1)
   \<and> check_tasks [\<lparr>success = False\<rparr>, \<lparr>success = False\<rparr>, \<lparr>success = True\<rparr>,
        \<lparr>success = True\<rparr>, \<lparr>success = True\<rparr>] False (1 / 4)
       = ([Warning_percent_failed 40], Returned)
   \<and> failRate [\<lparr>success = False\<rparr>, \<lparr>success = True\<rparr>, \<lparr>success = True\<rparr>,
        \<lparr>success = True\<rparr>, \<lparr>success = True\<rparr>] = 1 / 5
   \<and> check_tasks [\<lparr>success = False\<rparr>, \<lparr>success = True\<rparr>, \<lparr>success = True\<rparr>,
        \<lparr>success = True\<rparr>, \<lparr>success = True\<rparr>] True (1 / 4) = ([], Returned)"
proof -
  let ?two = "[\<lparr>success = False\<rparr>, \<lparr>success = False\<rparr>, \<lparr>success = True\<rparr>,
        \<lparr>success = True\<rparr>, \<lparr>success = True\<rparr>]"
  let ?one = "[\<lparr>success = False\<rparr>, \<lparr>success = True\<rparr>, \<lparr>success = True\<rparr>,
        \<lparr>success = True\<rparr>, \<lparr>success = True\<rparr>]"
  have r2: "failRate ?two = 2 / 5" and r1: "failRate ?one = 1 / 5"
    by (simp_all add: failRate_def countFailed_def countTotal_def)
  have n: "countTotal ([] :: task_result list) = 0" "countTotal ?two \<noteq> 0" "countTotal ?one \<noteq> 0"
    by (simp_all add: countTotal_def)
  show ?thesis
    using check_tasks_triage [of "[]" True "1 / 4"]
      check_tasks_triage [of ?two True "1 / 4"]
      check_tasks_triage [of ?two False "1 / 4"]
      check_tasks_triage [of ?one True "1 / 4"]
    by (simp add: r1 r2 n)
qed

end
